theory Spec2Isabelle
  imports Complex_Main "HOL-Library.Word" "HOL-Library.AList"
begin

unbundle bit_operations_syntax

section \<open>The emulated-asynchronous MQGET scheduler of lib/mqi.js\<close>

text \<open>
  The development embeds the part of \<^verbatim>\<open>lib/mqi.js\<close> that emulates asynchronous
  message retrieval: the context registry (\<^verbatim>\<open>contextMap\<close>), the per-connection gate
  (\<^verbatim>\<open>hConnsInUse\<close>), the polling functions \<^verbatim>\<open>pollAllHConns\<close>, \<^verbatim>\<open>pollPerHconn\<close>,
  \<^verbatim>\<open>pollHobjs\<close>, \<^verbatim>\<open>initGet\<close>, \<^verbatim>\<open>pollHObjInternal\<close> with the completion callback of
  \<^verbatim>\<open>MQGET.async\<close>, and the two API verbs \<^verbatim>\<open>Get\<close> and \<^verbatim>\<open>GetDone\<close>.

  JavaScript runs these functions on one thread, one event-loop tick at a time. The module's
  global variables become one record that every function takes and returns; pending timers
  (\<^verbatim>\<open>setTimeout\<close>, \<^verbatim>\<open>setImmediate\<close>) and transport calls that have not completed yet are
  lists in that record, and each tick is an event applied to the record. \<^verbatim>\<open>Date.now()\<close>,
  \<^verbatim>\<open>Math.random()\<close>, the outcome of a transport call and what a user handler does to
  the options it is given are inputs of the tick.
\<close>

subsection \<open>Data\<close>

text \<open>
  An \<^verbatim>\<open>MQObject\<close>: \<open>hConn\<close> is what the source reads as
  \<^verbatim>\<open>_mqQueueManager._hConn\<close>, \<open>hObj\<close> is \<^verbatim>\<open>_hObj\<close>. Handles are MQLONG integers.
  Disconnecting (\<^verbatim>\<open>Disc\<close>) overwrites the connection handle of the queue manager object;
  that verb is not one of the events below, so the handle of an object is fixed.
\<close>

record MQObject =
  hConn :: int
  hObj :: int
  oname :: string

text \<open>
  \<^verbatim>\<open>MQGMO\<close> and \<^verbatim>\<open>MQMD\<close> are declared in other modules of the package
  (\<^verbatim>\<open>mqgmo.js\<close>, \<^verbatim>\<open>mqmd.js\<close>), which \<^verbatim>\<open>mqi.js\<close> only requires. The fields the scheduler names are fields here; every other
  field is kept, by name, in \<open>GmoOther\<close> and \<open>MdOther\<close>. \<open>Options\<close> is an MQLONG on
  which the scheduler works bitwise, hence a 32-bit word.
\<close>

record MQGMO =
  Options :: "32 word"
  GmoWaitInterval :: int
  MsgToken :: "nat list"
  GmoOther :: "(string \<times> int) list"

record MQMD =
  Format :: "nat list"
  CorrelId :: "nat list"
  MsgId :: "nat list"
  GroupId :: "nat list"
  AccountingToken :: "nat list"
  MdOther :: "(string \<times> int) list"

datatype ctx_state = Running | Waiting

text \<open>
  \<^verbatim>\<open>UserContext\<close>. \<open>cb\<close> identifies the user's handler; \<open>buf\<close> is the length of the
  allocated \<^verbatim>\<open>Buffer\<close> (\<open>None\<close> for \<^verbatim>\<open>null\<close>), its bytes play no part in scheduling.
\<close>

record UserContext =
  cb :: nat
  object :: MQObject
  WaitInterval :: int
  WaitStartTime :: int
  jsgmo :: "MQGMO option"
  jsmd :: "MQMD option"
  buf :: "int option"
  bufSize :: int
  state :: ctx_state
  retrieved :: int

text \<open>
  The three numeric tuning parameters are whatever \<^verbatim>\<open>setTuningParameters\<close> was given:
  it accepts every value whose \<^verbatim>\<open>typeof\<close> is \<^verbatim>\<open>'number'\<close> and stores it as it is.
  A JavaScript number is a finite number, one of the two infinities, or \<^verbatim>\<open>NaN\<close>;
  \<open>jsLess\<close> is the operator \<^verbatim>\<open><\<close> on them, false whenever an operand is
  \<^verbatim>\<open>NaN\<close>.
\<close>

datatype jsnum = Num real | PosInfinity | NegInfinity | NaN

fun jsLess :: "jsnum \<Rightarrow> jsnum \<Rightarrow> bool" where
  "jsLess (Num x) (Num y) = (x < y)"
| "jsLess (Num x) PosInfinity = True"
| "jsLess NegInfinity (Num y) = True"
| "jsLess NegInfinity PosInfinity = True"
| "jsLess x y = False"

record tuning =
  maxConsecutiveGets :: jsnum
  getLoopPollTimeMs :: jsnum
  getLoopDelayTimeMs :: jsnum
  syncMQICompat :: bool
  debugLongCalls :: bool
  debugLog :: bool

text \<open>
  The constants \<^verbatim>\<open>MQC.*\<close> come from \<^verbatim>\<open>mqidefs.js\<close> and the marshalling functions
  \<^verbatim>\<open>_copyGMOtoC\<close>, \<^verbatim>\<open>_copyGMOfromC\<close>, \<^verbatim>\<open>_copyMDtoC\<close>, \<^verbatim>\<open>_copyMDfromC\<close> from
  \<^verbatim>\<open>mqgmo.js\<close> and \<^verbatim>\<open>mqmd.js\<close>; \<^verbatim>\<open>mqi.js\<close> only requires these modules, so
  they are parameters of the model. The C structures are modelled by the same records as
  their JavaScript counterparts.
\<close>

record mqdefs =
  MQCC_OK :: int
  MQCC_FAILED :: int
  MQRC_TRUNCATED_MSG_FAILED :: int
  MQRC_NO_MSG_AVAILABLE :: int
  MQRC_HOBJ_ERROR :: int
  MQWI_UNLIMITED :: int
  MQGMO_WAIT :: "32 word"
  MQGMO_ACCEPT_TRUNCATED_MSG :: "32 word"
  copyMDtoC :: "MQMD \<Rightarrow> MQMD"
  copyMDfromC :: "MQMD \<Rightarrow> MQMD \<Rightarrow> MQMD"
  copyGMOtoC :: "MQGMO \<Rightarrow> MQGMO"
  copyGMOfromC :: "MQGMO \<Rightarrow> MQGMO \<Rightarrow> MQGMO"

text \<open>\<^verbatim>\<open>new MQError(mqcc, mqrc, verb)\<close>.\<close>

datatype MQError = MQError int int string

text \<open>
  The closure of \<^verbatim>\<open>pollHObj(c, jsmd, jsgmo)\<close>: a reference to the context and the two
  working copies made by \<^verbatim>\<open>initGet\<close>, which live as long as the closure re-schedules
  itself.
\<close>

record closure =
  cl_c :: nat
  cl_jsmd :: MQMD
  cl_jsgmo :: MQGMO

datatype task = PollAllHConns | PollPerHconn int | PollHObjInternal closure

datatype delay = Immediate | Timeout jsnum

text \<open>An \<^verbatim>\<open>MQGET.async\<close> call that has been issued and has not completed.\<close>

record getcall =
  call_cl :: closure
  call_hConn :: int
  call_hObj :: int
  call_mqMd :: MQMD
  call_mqGmo :: MQGMO
  call_bufflen :: int

text \<open>
  What is in flight on the transport: an MQGET of the scheduler, or another asynchronous verb
  (\<^verbatim>\<open>Put\<close>, \<^verbatim>\<open>Open\<close>, \<^verbatim>\<open>Sub\<close>, ...) that took the gate of the given connection.
\<close>

datatype pending = MQGET getcall | MQVERB int

text \<open>
  The calls made to user functions, in order. \<open>GetCb\<close> is
  \<^verbatim>\<open>c.cb(err, object, jsgmo, jsmd, data, qmgr)\<close>, the last component being the end index
  of \<^verbatim>\<open>c.buf.slice(0, jsDatalen)\<close>; \<open>DoneCb\<close> is the \<^verbatim>\<open>cb(null)\<close> of \<^verbatim>\<open>GetDone\<close>.
\<close>

datatype invocation =
  GetCb nat "MQError option" MQObject "MQGMO option" "MQMD option" "int option"
| DoneCb nat

text \<open>
  The module's variables. Contexts are objects shared between the registry and the closures
  that poll them, so they live in a store (\<open>heap\<close>) and are named by reference.
  \<open>contextMap\<close> and \<open>hConnsInUse\<close> are JavaScript \<^verbatim>\<open>Map\<close>s, \<open>hConnsInPoll\<close> is a
  \<^verbatim>\<open>Set\<close>: all three keep insertion order. \<open>getLoop\<close> holds the handle returned by
  \<^verbatim>\<open>setTimeout\<close>, or \<^verbatim>\<open>null\<close>.
\<close>

record mqi =
  contextMap :: "(string \<times> nat) list"
  heap :: "nat \<Rightarrow> UserContext"
  nextRef :: nat
  hConnsInUse :: "(int \<times> int) list"
  hConnsInPoll :: "int list"
  messagesRetrievedInHConnPoll :: int
  getLoop :: "nat option"
  scheduledGetLoop :: bool
  tuningParameters :: tuning
  timers :: "(nat \<times> delay \<times> task) list"
  nextTimer :: nat
  inflight :: "pending list"
  calls :: "invocation list"

definition maxBufSize :: int where
  "maxBufSize = 100 * 1024 * 1024"

definition defaultBufSize :: int where
  "defaultBufSize = 10240"

definition getLoopPollTimeMsMin :: jsnum where
  "getLoopPollTimeMsMin = Num 0"

definition getLoopPollTimeMsDefault :: jsnum where
  "getLoopPollTimeMsDefault = Num (10 * 1000)"

definition getLoopDelayTimeMsDefault :: jsnum where
  "getLoopDelayTimeMsDefault = Num 250"

definition maxConsecutiveGetsDefault :: jsnum where
  "maxConsecutiveGetsDefault = Num 100"

definition tuningDefault :: tuning where
  "tuningDefault = \<lparr> maxConsecutiveGets = maxConsecutiveGetsDefault,
     getLoopPollTimeMs = getLoopPollTimeMsDefault,
     getLoopDelayTimeMs = getLoopDelayTimeMsDefault,
     syncMQICompat = False, debugLongCalls = False, debugLog = False \<rparr>"

subsection \<open>Rendering of handles in registry keys\<close>

text \<open>
  \<^verbatim>\<open>hConn + "/" + hObj\<close> converts both integers to decimal strings.
\<close>

definition digit_char :: "nat \<Rightarrow> char" where
  "digit_char d = char_of (48 + d)"

fun digits :: "nat \<Rightarrow> string" where
  "digits n = (if n < 10 then [digit_char n] else digits (n div 10) @ [digit_char (n mod 10)])"

declare digits.simps [simp del]

definition num_str :: "int \<Rightarrow> string" where
  "num_str i = (if i < 0 then CHR ''-'' # digits (nat (- i)) else digits (nat i))"

subsection \<open>The context registry\<close>

definition UserContext_new :: "MQObject \<Rightarrow> nat \<Rightarrow> int \<Rightarrow> UserContext" where
  "UserContext_new o' f now = \<lparr> cb = f, object = o', WaitInterval = 0, WaitStartTime = now,
     jsgmo = None, jsmd = None, buf = None, bufSize = defaultBufSize, state = Running,
     retrieved = 0 \<rparr>"

definition getKey :: "MQObject option \<Rightarrow> string option" where
  "getKey jsObject = (case jsObject of
       Some ob \<Rightarrow> Some (num_str (hConn ob) @ ''/'' @ num_str (hObj ob))
     | None \<Rightarrow> None)"

text \<open>A non-empty string is truthy; the key always contains the slash.\<close>

definition setUserContext :: "MQObject \<Rightarrow> nat \<Rightarrow> int \<Rightarrow> mqi \<Rightarrow> nat \<times> mqi" where
  "setUserContext jsObject f now s =
     (let c = nextRef s;
          s1 = s\<lparr> heap := (heap s)(c := UserContext_new jsObject f now), nextRef := Suc c \<rparr>
      in case getKey (Some jsObject) of
           Some key \<Rightarrow> (c, s1\<lparr> contextMap := AList.update key c (contextMap s1) \<rparr>)
         | None \<Rightarrow> (c, s1))"

definition getUserContext :: "MQObject option \<Rightarrow> mqi \<Rightarrow> nat option" where
  "getUserContext jsObject s = (case jsObject of
       Some ob \<Rightarrow> (case getKey jsObject of
           Some key \<Rightarrow> map_of (contextMap s) key
         | None \<Rightarrow> None)
     | None \<Rightarrow> None)"

definition deleteUserContext :: "MQObject \<Rightarrow> mqi \<Rightarrow> mqi" where
  "deleteUserContext jsObject s = (case getKey (Some jsObject) of
       Some key \<Rightarrow> s\<lparr> contextMap := AList.delete key (contextMap s) \<rparr>
     | None \<Rightarrow> s)"

definition startsWith :: "string \<Rightarrow> string \<Rightarrow> bool" where
  "startsWith key p = (take (length p) key = p)"

definition deleteUserConnection :: "int \<Rightarrow> mqi \<Rightarrow> mqi" where
  "deleteUserConnection hc s =
     (if hc \<noteq> 0 \<and> hc \<noteq> - 1 then
        (let partialKey = num_str hc @ ''/''
         in s\<lparr> contextMap := filter (\<lambda>(key, c).
                  \<not> (startsWith key partialKey \<or> startsWith key ''-1/'')) (contextMap s) \<rparr>)
      else s)"

subsection \<open>The connection gate\<close>

definition isLocked :: "int \<Rightarrow> mqi \<Rightarrow> bool" where
  "isLocked hc s = (map_of (hConnsInUse s) hc \<noteq> None)"

definition lock :: "int \<Rightarrow> int \<Rightarrow> mqi \<Rightarrow> mqi" where
  "lock hc now s = s\<lparr> hConnsInUse := AList.update hc now (hConnsInUse s) \<rparr>"

definition unlock :: "int \<Rightarrow> mqi \<Rightarrow> mqi" where
  "unlock hc s = s\<lparr> hConnsInUse := AList.delete hc (hConnsInUse s) \<rparr>"

subsection \<open>Timers\<close>

definition setTimeout :: "task \<Rightarrow> jsnum \<Rightarrow> mqi \<Rightarrow> nat \<times> mqi" where
  "setTimeout t ms s = (nextTimer s,
     s\<lparr> timers := timers s @ [(nextTimer s, Timeout ms, t)], nextTimer := Suc (nextTimer s) \<rparr>)"

definition setImmediate :: "task \<Rightarrow> mqi \<Rightarrow> mqi" where
  "setImmediate t s =
     s\<lparr> timers := timers s @ [(nextTimer s, Immediate, t)], nextTimer := Suc (nextTimer s) \<rparr>"

subsection \<open>Buffer sizing\<close>

text \<open>
  The truncation branch: \<^verbatim>\<open>c.bufSize = c.bufSize * 2\<close>, then the clamp at
  \<open>maxBufSize\<close>.
\<close>

definition growBufSize :: "int \<Rightarrow> int" where
  "growBufSize b = (let b2 = b * 2 in if b2 > maxBufSize then maxBufSize else b2)"

text \<open>
  The heuristic after a delivery. The source compares \<^verbatim>\<open>(c.bufSize * 90) / 100\<close> with
  \<^verbatim>\<open>jsDatalen\<close> and takes \<^verbatim>\<open>Math.floor\<close> of the same quotient. Both operands are
  integers far below \<open>2 ^ 53\<close>, so the product is exact, the comparison of the quotient with
  an integer agrees with the comparison of the product with a hundred times that integer, and
  the floor is integer division.
\<close>

definition shrinkBufSize :: "int \<Rightarrow> int \<Rightarrow> int" where
  "shrinkBufSize b jsDatalen =
     (if b > defaultBufSize \<and> b * 90 > jsDatalen * 100 then
        (let b' = (b * 90) div 100 in if b' < defaultBufSize then defaultBufSize else b')
      else b)"

subsection \<open>Polling\<close>

definition updCtx :: "nat \<Rightarrow> (UserContext \<Rightarrow> UserContext) \<Rightarrow> mqi \<Rightarrow> mqi" where
  "updCtx a f s = s\<lparr> heap := (heap s)(a := f (heap s a)) \<rparr>"

definition invoke :: "invocation \<Rightarrow> mqi \<Rightarrow> mqi" where
  "invoke i s = s\<lparr> calls := calls s @ [i] \<rparr>"

text \<open>
  \<^verbatim>\<open>shuffle\<close>: for \<open>i\<close> from the last index down to 1, swap positions \<open>i\<close> and
  \<open>j = floor (random * (i + 1))\<close>. The random draws are the list \<open>rs\<close>, each reduced
  into \<open>0..i\<close>.
\<close>

fun shuffle_loop :: "nat \<Rightarrow> nat list \<Rightarrow> 'a list \<Rightarrow> 'a list" where
  "shuffle_loop 0 rs xs = xs"
| "shuffle_loop (Suc i) rs xs =
     (let j = (case rs of [] \<Rightarrow> 0 | r # _ \<Rightarrow> r mod Suc (Suc i))
      in shuffle_loop i (tl rs) (xs[Suc i := xs ! j, j := xs ! Suc i]))"

definition shuffle :: "nat list \<Rightarrow> 'a list \<Rightarrow> 'a list" where
  "shuffle rs xs = shuffle_loop (length xs - 1) rs xs"

definition getRunningContexts :: "mqi \<Rightarrow> nat list \<Rightarrow> nat list" where
  "getRunningContexts s hObjsToPoll = filter (\<lambda>c. state (heap s c) = Running) hObjsToPoll"

definition getAllContextsForPoll :: "int \<Rightarrow> mqi \<Rightarrow> nat list" where
  "getAllContextsForPoll hc s =
     filter (\<lambda>c. hConn (object (heap s c)) = hc) (map snd (contextMap s))"

text \<open>A \<^verbatim>\<open>Set\<close> built from an array keeps the first occurrence of each element.\<close>

definition uniq :: "'a list \<Rightarrow> 'a list" where
  "uniq xs = rev (remdups (rev xs))"

definition getFreshHconnsForPoll :: "mqi \<Rightarrow> int list" where
  "getFreshHconnsForPoll s =
     (let allHconns = map (\<lambda>c. hConn (object (heap s c))) (map snd (contextMap s));
          uniqHconns = uniq allHconns
      in filter (\<lambda>hc. hc \<notin> set (hConnsInPoll s)) uniqHconns)"

text \<open>
  \<^verbatim>\<open>pollHObjInternal\<close> up to the point where \<^verbatim>\<open>MQGET.async\<close> has been issued. The
  callback it passes to the transport is \<open>MQGET_callback\<close> below.
\<close>

definition pollHObjInternal :: "mqdefs \<Rightarrow> int \<Rightarrow> closure \<Rightarrow> mqi \<Rightarrow> mqi" where
  "pollHObjInternal E now cl s =
     (let c = heap s (cl_c cl); hc = hConn (object c)
      in if isLocked hc s then setImmediate (PollHObjInternal cl) s
         else
           (let s1 = lock hc now s;
                mqMd = copyMDtoC E (cl_jsmd cl);
                mqGmo0 = (copyGMOtoC E (cl_jsgmo cl))\<lparr> GmoWaitInterval := 0 \<rparr>;
                mqGmo = mqGmo0\<lparr> Options := Options mqGmo0
                          AND NOT (MQGMO_WAIT E OR MQGMO_ACCEPT_TRUNCATED_MSG E) \<rparr>;
                s2 = (if (case buf c of None \<Rightarrow> True | Some n \<Rightarrow> n < bufSize c)
                      then updCtx (cl_c cl) (\<lambda>c. c\<lparr> buf := Some (bufSize c) \<rparr>) s1
                      else s1);
                bufflen = (case buf (heap s2 (cl_c cl)) of None \<Rightarrow> 0 | Some n \<Rightarrow> n)
            in s2\<lparr> inflight := inflight s2 @
                 [MQGET \<lparr> call_cl = cl, call_hConn = hc, call_hObj = hObj (object c),
                          call_mqMd = mqMd, call_mqGmo = mqGmo, call_bufflen = bufflen \<rparr>] \<rparr>))"

definition pollHObj :: "mqdefs \<Rightarrow> int \<Rightarrow> nat \<Rightarrow> MQMD \<Rightarrow> MQGMO \<Rightarrow> mqi \<Rightarrow> mqi" where
  "pollHObj E now c md gmo s =
     pollHObjInternal E now \<lparr> cl_c = c, cl_jsmd = md, cl_jsgmo = gmo \<rparr> s"

text \<open>
  \<^verbatim>\<open>initGet\<close> copies the two templates of the context, field by field for the buffers.
  \<^verbatim>\<open>Get\<close> stores both templates before it returns, so a context that can be picked has
  them; with a \<^verbatim>\<open>null\<close> template the source would fail on \<^verbatim>\<open>c.jsgmo.MsgToken\<close>.
\<close>

definition initGet :: "mqdefs \<Rightarrow> int \<Rightarrow> nat \<Rightarrow> mqi \<Rightarrow> mqi" where
  "initGet E now c s = (case (jsgmo (heap s c), jsmd (heap s c)) of
       (Some g, Some m) \<Rightarrow>
         (let gmo = g\<lparr> MsgToken := MsgToken g \<rparr>;
              md = m\<lparr> Format := Format m, CorrelId := CorrelId m, MsgId := MsgId m,
                      GroupId := GroupId m, AccountingToken := AccountingToken m \<rparr>
          in pollHObj E now c md gmo s)
     | _ \<Rightarrow> s)"

definition pollHobjs :: "mqdefs \<Rightarrow> (int \<Rightarrow> nat list) \<Rightarrow> int \<Rightarrow> int \<Rightarrow> mqi \<Rightarrow> mqi" where
  "pollHobjs E rnd now hc s =
     (if hc = - 1 then s
      else
        (let hObjsToPoll = getAllContextsForPoll hc s;
             nonWaitingContexts = getRunningContexts s hObjsToPoll;
             s1 = s\<lparr> scheduledGetLoop := False \<rparr>
         in if messagesRetrievedInHConnPoll s1 > 0 then
              snd (setTimeout (PollPerHconn hc) (getLoopDelayTimeMs (tuningParameters s1))
                     (s1\<lparr> scheduledGetLoop := True \<rparr>))
            else if length nonWaitingContexts = 0 then
              snd (setTimeout (PollPerHconn hc) (getLoopPollTimeMs (tuningParameters s1))
                     (s1\<lparr> scheduledGetLoop := True \<rparr>))
            else
              (case shuffle (rnd hc) nonWaitingContexts of
                 c # _ \<Rightarrow> initGet E now c (updCtx c (\<lambda>c. c\<lparr> retrieved := 0 \<rparr>) s1)
               | [] \<Rightarrow> s1)))"

definition pollPerHconn :: "mqdefs \<Rightarrow> (int \<Rightarrow> nat list) \<Rightarrow> int \<Rightarrow> int \<Rightarrow> mqi \<Rightarrow> mqi" where
  "pollPerHconn E rnd now hc s =
     (let s1 = s\<lparr> messagesRetrievedInHConnPoll := 0 \<rparr>;
          hObjsToPoll = getAllContextsForPoll hc s1
      in if length hObjsToPoll = 0 \<or> hc = - 1 then
           s1\<lparr> hConnsInPoll := removeAll hc (hConnsInPoll s1) \<rparr>
         else
           pollHobjs E rnd now hc
             (fold (\<lambda>c. updCtx c (\<lambda>c. c\<lparr> state := Running, retrieved := 0 \<rparr>)) hObjsToPoll s1))"

text \<open>\<^verbatim>\<open>Set.add\<close>: a new element goes last, a present one stays where it is.\<close>

definition setAdd :: "'a \<Rightarrow> 'a list \<Rightarrow> 'a list" where
  "setAdd x xs = (if x \<in> set xs then xs else xs @ [x])"

definition resetGetLoop :: "mqi \<Rightarrow> mqi" where
  "resetGetLoop s = s\<lparr> scheduledGetLoop := False, getLoop := None \<rparr>"

definition pollAllHConns :: "mqdefs \<Rightarrow> (int \<Rightarrow> nat list) \<Rightarrow> int \<Rightarrow> mqi \<Rightarrow> mqi" where
  "pollAllHConns E rnd now s =
     (let s1 = (if length (contextMap s) > 0 then
                  fold (\<lambda>hc s.
                      if hc \<noteq> - 1 then
                        pollPerHconn E rnd now hc
                          (s\<lparr> hConnsInPoll := setAdd hc (hConnsInPoll s) \<rparr>)
                      else s\<lparr> hConnsInPoll := removeAll hc (hConnsInPoll s) \<rparr>)
                    (getFreshHconnsForPoll s) s
                else s)
      in if length (contextMap s1) = 0 then resetGetLoop s1 else s1)"

subsection \<open>The completion callback of MQGET\<close>

text \<open>What the transport hands back: completion code, reason code, data length, and the
  two C structures as the call left them.\<close>

record outcome =
  out_cc :: int
  out_rc :: int
  out_datalen :: int
  out_mqMd :: MQMD
  out_mqGmo :: MQGMO

text \<open>The test on the wait interval made in the callback when the call did not succeed.\<close>

definition waitExpired :: "mqdefs \<Rightarrow> UserContext \<Rightarrow> int \<Rightarrow> bool" where
  "waitExpired E c now =
     (let timeDiff = now - WaitStartTime c
      in if WaitInterval c = MQWI_UNLIMITED E then False
         else if timeDiff < WaitInterval c then False
         else True)"

text \<open>
  The arrow function passed to \<^verbatim>\<open>MQGET.async\<close>. \<open>ed\<close> is what the user's handler does
  to the options and the descriptor it is given on a delivery. \<^verbatim>\<open>Get\<close> demands a handler,
  so the test \<^verbatim>\<open>if (c.cb)\<close> succeeds for every context.
\<close>

definition MQGET_callback ::
  "mqdefs \<Rightarrow> (int \<Rightarrow> nat list) \<Rightarrow> int \<Rightarrow> (MQGMO \<times> MQMD \<Rightarrow> MQGMO \<times> MQMD) \<Rightarrow>
   getcall \<Rightarrow> outcome \<Rightarrow> mqi \<Rightarrow> mqi" where
  "MQGET_callback E rnd now ed call out s0 =
     (let a = cl_c (call_cl call);
          hc = hConn (object (heap s0 a));
          s = unlock hc s0;
          md = copyMDfromC E (out_mqMd out) (cl_jsmd (call_cl call));
          gmo = copyGMOfromC E (out_mqGmo out) (cl_jsgmo (call_cl call));
          jsRc = out_rc out;
          jsCc = out_cc out;
          jsDatalen = out_datalen out;
          err = MQError jsCc jsRc ''GET'';
          c = heap s a
      in if jsCc \<noteq> MQCC_OK E then
           (if jsRc = MQRC_TRUNCATED_MSG_FAILED E then
              snd (setTimeout
                     (PollHObjInternal \<lparr> cl_c = a, cl_jsmd = md, cl_jsgmo = gmo \<rparr>) (Num 0)
                     (updCtx a (\<lambda>c. c\<lparr> bufSize := growBufSize (bufSize c) \<rparr>) s))
            else if jsRc = MQRC_NO_MSG_AVAILABLE E \<and> \<not> waitExpired E c now then
              (if int (length (contextMap s)) \<le> 1 then
                 snd (setTimeout
                        (PollHObjInternal \<lparr> cl_c = a, cl_jsmd = md, cl_jsgmo = gmo \<rparr>)
                        (getLoopPollTimeMs (tuningParameters s)) s)
               else pollHobjs E rnd now hc s)
            else
              pollHobjs E rnd now hc
                (deleteUserContext (object c)
                   (invoke (GetCb (cb c) (Some err) (object c) None None None)
                      (updCtx a (\<lambda>c. c\<lparr> state := Waiting \<rparr>) s))))
         else
           (case jsgmo c of
              None \<Rightarrow> s
            | Some tmpl \<Rightarrow>
               (let s1 = updCtx a (\<lambda>c. c\<lparr> state := Waiting, retrieved := retrieved c + 1 \<rparr>) s;
                    data = (case buf c of None \<Rightarrow> None | Some n \<Rightarrow> Some jsDatalen);
                    s2 = invoke (GetCb (cb c) None (object c) (Some gmo) (Some md) data) s1;
                    gmo' = fst (ed (gmo, md));
                    md' = snd (ed (gmo, md));
                    s3 = updCtx a (\<lambda>c. c\<lparr> state := Running,
                            WaitInterval := GmoWaitInterval tmpl,
                            WaitStartTime := now,
                            jsgmo := Some (tmpl\<lparr> Options := Options gmo' \<rparr>),
                            bufSize := shrinkBufSize (bufSize c) jsDatalen \<rparr>) s2;
                    s4 = s3\<lparr> messagesRetrievedInHConnPoll :=
                              messagesRetrievedInHConnPoll s3 + 1 \<rparr>
                in if jsLess (Num (real_of_int (retrieved (heap s4 a))))
                        (maxConsecutiveGets (tuningParameters s4)) then
                     snd (setTimeout
                            (PollHObjInternal \<lparr> cl_c = a, cl_jsmd = md', cl_jsgmo = gmo' \<rparr>)
                            (Num 0) s4)
                   else pollHobjs E rnd now hc s4)))"

subsection \<open>The API verbs\<close>

text \<open>
  \<^verbatim>\<open>Get\<close>, for arguments that pass its parameter checks (an \<^verbatim>\<open>MQObject\<close>, an
  \<^verbatim>\<open>MQMD\<close>, an \<^verbatim>\<open>MQGMO\<close> and a function); the checks throw a \<^verbatim>\<open>TypeError\<close> before
  anything is stored otherwise.
\<close>

definition Get :: "MQObject \<Rightarrow> MQMD \<Rightarrow> MQGMO \<Rightarrow> nat \<Rightarrow> int \<Rightarrow> mqi \<Rightarrow> mqi" where
  "Get jsObject md gmo f now s =
     (let (c, s1) = setUserContext jsObject f now s;
          s2 = updCtx c (\<lambda>c. c\<lparr> jsgmo := Some gmo, jsmd := Some md,
                  WaitInterval := GmoWaitInterval gmo \<rparr>) s1;
          s3 = (if jsLess (getLoopPollTimeMs (tuningParameters s2)) getLoopPollTimeMsMin then
                  s2\<lparr> tuningParameters :=
                       (tuningParameters s2)\<lparr> getLoopPollTimeMs := getLoopPollTimeMsMin \<rparr> \<rparr>
                else s2)
      in if \<not> scheduledGetLoop s3 \<or> getLoop s3 = None then
           (let (t, s4) = setTimeout PollAllHConns (Num 0) (s3\<lparr> scheduledGetLoop := True \<rparr>)
            in s4\<lparr> getLoop := Some t \<rparr>)
         else s3)"

text \<open>
  \<^verbatim>\<open>GetDone\<close>: the thrown \<^verbatim>\<open>MQError\<close> is the left summand. The object may be
  \<^verbatim>\<open>null\<close> and the callback may be omitted.
\<close>

definition GetDone :: "mqdefs \<Rightarrow> MQObject option \<Rightarrow> nat option \<Rightarrow> mqi \<Rightarrow> MQError + mqi" where
  "GetDone E jsObject f s =
     (case getUserContext jsObject s of
        None \<Rightarrow> Inl (MQError (MQCC_FAILED E) (MQRC_HOBJ_ERROR E) ''GetDone'')
      | Some userContext \<Rightarrow>
         (case jsObject of
            None \<Rightarrow> Inl (MQError (MQCC_FAILED E) (MQRC_HOBJ_ERROR E) ''GetDone'')
          | Some ob \<Rightarrow>
             (let s1 = deleteUserContext ob s;
                  s2 = (if length (contextMap s1) = 0 then resetGetLoop s1 else s1)
              in Inr (case f of None \<Rightarrow> s2 | Some g \<Rightarrow> invoke (DoneCb g) s2))))"

subsection \<open>Event-loop ticks\<close>

text \<open>
  Another asynchronous verb on a connection (\<^verbatim>\<open>putInternal\<close>, \<^verbatim>\<open>openInternal\<close>, ...):
  it defers itself while the gate is held, otherwise takes the gate and calls the transport;
  its callback gives the gate back.
\<close>

definition verbInternal :: "int \<Rightarrow> int \<Rightarrow> mqi \<Rightarrow> mqi" where
  "verbInternal hc now s =
     (if isLocked hc s then s
      else (lock hc now s)\<lparr> inflight := inflight (lock hc now s) @ [MQVERB hc] \<rparr>)"

definition dropAt :: "nat \<Rightarrow> 'a list \<Rightarrow> 'a list" where
  "dropAt i xs = take i xs @ drop (Suc i) xs"

datatype event =
  ApiGet MQObject MQMD MQGMO nat
| ApiGetDone "MQObject option" "nat option"
| Fire nat
| Complete nat outcome "MQGMO \<times> MQMD \<Rightarrow> MQGMO \<times> MQMD"
| VerbStart int
| VerbDone nat
| SetTuning jsnum jsnum jsnum

definition runTask :: "mqdefs \<Rightarrow> (int \<Rightarrow> nat list) \<Rightarrow> int \<Rightarrow> task \<Rightarrow> mqi \<Rightarrow> mqi" where
  "runTask E rnd now t s = (case t of
       PollAllHConns \<Rightarrow> pollAllHConns E rnd now s
     | PollPerHconn hc \<Rightarrow> pollPerHconn E rnd now hc s
     | PollHObjInternal cl \<Rightarrow> pollHObjInternal E now cl s)"

text \<open>
  One tick: a call of the application, a pending timer that fires (\<open>Fire i\<close>, the timer at
  position \<open>i\<close>), or a transport call that completes. A \<^verbatim>\<open>GetDone\<close> that throws leaves
  the variables as they were. \<open>SetTuning\<close> is \<^verbatim>\<open>setTuningParameters\<close> on the three
  numeric parameters of the scheduler; \<^verbatim>\<open>debugLongCalls\<close> keeps its default, so the
  monitor that it would start is not among the ticks.
\<close>

definition step :: "mqdefs \<Rightarrow> (int \<Rightarrow> nat list) \<Rightarrow> int \<Rightarrow> event \<Rightarrow> mqi \<Rightarrow> mqi" where
  "step E rnd now ev s = (case ev of
       ApiGet ob md gmo f \<Rightarrow> Get ob md gmo f now s
     | ApiGetDone ob f \<Rightarrow> (case GetDone E ob f s of Inl err \<Rightarrow> s | Inr s' \<Rightarrow> s')
     | Fire i \<Rightarrow>
         (if i < length (timers s)
          then runTask E rnd now (snd (snd (timers s ! i)))
                 (s\<lparr> timers := dropAt i (timers s) \<rparr>)
          else s)
     | Complete i out ed \<Rightarrow>
         (if i < length (inflight s)
          then (case inflight s ! i of
                  MQGET call \<Rightarrow>
                    MQGET_callback E rnd now ed call out (s\<lparr> inflight := dropAt i (inflight s) \<rparr>)
                | MQVERB hc \<Rightarrow> s)
          else s)
     | VerbStart hc \<Rightarrow> verbInternal hc now s
     | VerbDone i \<Rightarrow>
         (if i < length (inflight s)
          then (case inflight s ! i of
                  MQGET call \<Rightarrow> s
                | MQVERB hc \<Rightarrow> unlock hc (s\<lparr> inflight := dropAt i (inflight s) \<rparr>))
          else s)
     | SetTuning m p d \<Rightarrow>
         s\<lparr> tuningParameters := (tuningParameters s)\<lparr> maxConsecutiveGets := m,
              getLoopPollTimeMs := p, getLoopDelayTimeMs := d \<rparr> \<rparr>)"

definition emptyObject :: MQObject where
  "emptyObject = \<lparr> hConn = - 1, hObj = - 1, oname = [] \<rparr>"

text \<open>The module right after loading: nothing registered, nothing scheduled. No cell of
  the store is in use; \<open>nextRef\<close> is the first free one.\<close>

definition init :: mqi where
  "init = \<lparr> contextMap = [], heap = (\<lambda>_. UserContext_new emptyObject 0 0), nextRef = 0,
     hConnsInUse = [], hConnsInPoll = [], messagesRetrievedInHConnPoll = 0,
     getLoop = None, scheduledGetLoop = False, tuningParameters = tuningDefault,
     timers = [], nextTimer = 0, inflight = [], calls = [] \<rparr>"

text \<open>The states the module can be in: from \<open>init\<close>, by any sequence of ticks.\<close>

inductive reachable :: "mqdefs \<Rightarrow> mqi \<Rightarrow> bool" for E :: mqdefs where
  reach_init: "reachable E init"
| reach_step: "reachable E s \<Longrightarrow> reachable E (step E rnd now ev s)"

text \<open>A sequence of ticks, each with its clock reading and its random draws.\<close>

fun run :: "mqdefs \<Rightarrow> ((int \<Rightarrow> nat list) \<times> int \<times> event) list \<Rightarrow> mqi \<Rightarrow> mqi" where
  "run E [] s = s"
| "run E ((rnd, now, ev) # evs) s = run E evs (step E rnd now ev s)"

text \<open>
  For concrete runs: the values that IBM MQ gives the constants, and marshalling that copies
  every field.
\<close>

definition ibmDefs :: mqdefs where
  "ibmDefs = \<lparr> MQCC_OK = 0, MQCC_FAILED = 2, MQRC_TRUNCATED_MSG_FAILED = 2080,
     MQRC_NO_MSG_AVAILABLE = 2033, MQRC_HOBJ_ERROR = 2019, MQWI_UNLIMITED = - 1,
     MQGMO_WAIT = 1, MQGMO_ACCEPT_TRUNCATED_MSG = 64,
     copyMDtoC = (\<lambda>md. md), copyMDfromC = (\<lambda>mqMd md. mqMd),
     copyGMOtoC = (\<lambda>gmo. gmo), copyGMOfromC = (\<lambda>mqGmo gmo. mqGmo) \<rparr>"

definition md0 :: MQMD where
  "md0 = \<lparr> Format = [], CorrelId = [], MsgId = [], GroupId = [], AccountingToken = [],
     MdOther = [] \<rparr>"

definition gmoWait :: "int \<Rightarrow> MQGMO" where
  "gmoWait w = \<lparr> Options = 1, GmoWaitInterval = w, MsgToken = [], GmoOther = [] \<rparr>"

definition queue :: "int \<Rightarrow> int \<Rightarrow> MQObject" where
  "queue hc ho = \<lparr> hConn = hc, hObj = ho, oname = ''Q'' \<rparr>"

definition noMsg :: outcome where
  "noMsg = \<lparr> out_cc = 2, out_rc = 2033, out_datalen = 0, out_mqMd = md0,
     out_mqGmo = (gmoWait 0)\<lparr> Options := 0 \<rparr> \<rparr>"

definition truncated :: "int \<Rightarrow> outcome" where
  "truncated n = \<lparr> out_cc = 1, out_rc = 2080, out_datalen = n, out_mqMd = md0,
     out_mqGmo = (gmoWait 0)\<lparr> Options := 0 \<rparr> \<rparr>"

definition gotMsg :: "int \<Rightarrow> outcome" where
  "gotMsg n = \<lparr> out_cc = 0, out_rc = 0, out_datalen = n, out_mqMd = md0,
     out_mqGmo = (gmoWait 0)\<lparr> Options := 0 \<rparr> \<rparr>"

definition noRandom :: "int \<Rightarrow> nat list" where
  "noRandom hc = []"

definition idEd :: "MQGMO \<times> MQMD \<Rightarrow> MQGMO \<times> MQMD" where
  "idEd p = p"

text \<open>
  A first registration on a fresh module and the tick that starts polling it: the MQGET of
  the context is in flight. \<open>call1\<close> is that call.
\<close>

definition polling1 :: mqi where
  "polling1 = run ibmDefs [(noRandom, 0, ApiGet (queue 1 1) md0 (gmoWait 2000) 7),
     (noRandom, 1, Fire 0)] init"

definition call1 :: getcall where
  "call1 = \<lparr> call_cl = \<lparr> cl_c = 0, cl_jsmd = md0, cl_jsgmo = gmoWait 2000 \<rparr>,
     call_hConn = 1, call_hObj = 1, call_mqMd = md0,
     call_mqGmo = (gmoWait 0)\<lparr> Options := 0 \<rparr>, call_bufflen = 10240 \<rparr>"

text \<open>The state in which the callback of \<open>call1\<close> runs.\<close>

definition completing1 :: mqi where
  "completing1 = polling1\<lparr> inflight := [] \<rparr>"

text \<open>Two contexts agree on everything but the buffer, the state tag and the counter.\<close>

definition sameRequest :: "UserContext \<Rightarrow> UserContext \<Rightarrow> bool" where
  "sameRequest c c' = (cb c' = cb c \<and> object c' = object c \<and>
     WaitInterval c' = WaitInterval c \<and> WaitStartTime c' = WaitStartTime c \<and>
     jsgmo c' = jsgmo c \<and> jsmd c' = jsmd c \<and> bufSize c' = bufSize c)"

text \<open>
  The state the success branch of the callback has built when it decides between retrying
  and handing over to \<open>pollHobjs\<close>; \<open>tmpl\<close> is the stored options template.
\<close>

definition delivered ::
  "mqdefs \<Rightarrow> int \<Rightarrow> (MQGMO \<times> MQMD \<Rightarrow> MQGMO \<times> MQMD) \<Rightarrow> getcall \<Rightarrow> outcome \<Rightarrow> MQGMO \<Rightarrow>
   mqi \<Rightarrow> mqi" where
  "delivered E now ed call out tmpl s0 =
     (let a = cl_c (call_cl call);
          s = unlock (hConn (object (heap s0 a))) s0;
          md = copyMDfromC E (out_mqMd out) (cl_jsmd (call_cl call));
          gmo = copyGMOfromC E (out_mqGmo out) (cl_jsgmo (call_cl call));
          c = heap s a;
          s1 = updCtx a (\<lambda>c. c\<lparr> state := Waiting, retrieved := retrieved c + 1 \<rparr>) s;
          s2 = invoke (GetCb (cb c) None (object c) (Some gmo) (Some md)
                  (case buf c of None \<Rightarrow> None | Some n \<Rightarrow> Some (out_datalen out))) s1;
          s3 = updCtx a (\<lambda>c. c\<lparr> state := Running,
                  WaitInterval := GmoWaitInterval tmpl,
                  WaitStartTime := now,
                  jsgmo := Some (tmpl\<lparr> Options := Options (fst (ed (gmo, md))) \<rparr>),
                  bufSize := shrinkBufSize (bufSize c) (out_datalen out) \<rparr>) s2
      in s3\<lparr> messagesRetrievedInHConnPoll := messagesRetrievedInHConnPoll s3 + 1 \<rparr>)"

text \<open>
  After a truncation of the first attempt the retry is in flight with the doubled buffer:
  \<open>call2\<close>, in \<open>polling2\<close>.
\<close>

definition polling2 :: mqi where
  "polling2 = run ibmDefs [(noRandom, 0, ApiGet (queue 1 1) md0 (gmoWait 2000) 7),
     (noRandom, 1, Fire 0), (noRandom, 5, Complete 0 (truncated 20000) idEd),
     (noRandom, 6, Fire 0)] init"

definition call2 :: getcall where
  "call2 = \<lparr> call_cl = \<lparr> cl_c = 0, cl_jsmd = md0, cl_jsgmo = (gmoWait 0)\<lparr> Options := 0 \<rparr> \<rparr>,
     call_hConn = 1, call_hObj = 1, call_mqMd = md0,
     call_mqGmo = (gmoWait 0)\<lparr> Options := 0 \<rparr>, call_bufflen = 20480 \<rparr>"

text \<open>A handler that turns a browse-first request into browse-next.\<close>

definition browseNext :: "MQGMO \<times> MQMD \<Rightarrow> MQGMO \<times> MQMD" where
  "browseNext p = ((fst p)\<lparr> Options := 32 \<rparr>, snd p)"

text \<open>
  Two registrations on one connection, the first waiting without limit, and the tick that
  starts polling: with no random draws the second context is picked. \<open>callB\<close> is its
  MQGET, run in \<open>completingTwo\<close>.
\<close>

definition pollingTwo :: mqi where
  "pollingTwo = run ibmDefs [(noRandom, 0, ApiGet (queue 1 1) md0 (gmoWait (- 1)) 7),
     (noRandom, 0, ApiGet (queue 1 2) md0 (gmoWait 2000) 8), (noRandom, 1, Fire 0)] init"

definition callB :: getcall where
  "callB = \<lparr> call_cl = \<lparr> cl_c = 1, cl_jsmd = md0, cl_jsgmo = gmoWait 2000 \<rparr>,
     call_hConn = 1, call_hObj = 2, call_mqMd = md0,
     call_mqGmo = (gmoWait 0)\<lparr> Options := 0 \<rparr>, call_bufflen = 10240 \<rparr>"

definition completingTwo :: mqi where
  "completingTwo = pollingTwo\<lparr> inflight := [] \<rparr>"

text \<open>
  A registration that is cancelled by \<^verbatim>\<open>GetDone\<close> while its MQGET is in flight; then the
  MQGET completes without a message.
\<close>

definition cancelled :: mqi where
  "cancelled = run ibmDefs [(noRandom, 0, ApiGet (queue 1 1) md0 (gmoWait 2000) 7),
     (noRandom, 1, Fire 0), (noRandom, 2, ApiGetDone (Some (queue 1 1)) None),
     (noRandom, 5, Complete 0 noMsg idEd)] init"

text \<open>
  One dispatch of a context. \<open>draining E a n s\<close> says that context \<open>a\<close> has been picked
  with its counter at zero, that the closure of that pick has been at work since, and that
  \<open>n\<close> messages have been delivered to \<open>a\<close> by it. The pick either issued the MQGET
  (\<open>picked\<close>) or, the gate being held, deferred the closure (\<open>picked_deferred\<close>). From
  there on the ticks of the closure are: a timer of it fires, which issues the next MQGET or,
  with the gate held, defers once more (\<open>fired\<close>); its MQGET delivers a message and the
  callback schedules the zero-delay retry (\<open>delivered_retry\<close>); its MQGET is truncated
  and the callback schedules the zero-delay retry (\<open>truncated_retry\<close>); its MQGET finds
  no message and the callback schedules the delayed retry (\<open>no_message_delay\<close>). Any
  tick in between that is not a completion of an MQGET of \<open>a\<close>, and that leaves the counter
  of \<open>a\<close> and the parameter \<open>maxConsecutiveGets\<close> as they are, belongs to the same
  dispatch (\<open>other_tick\<close>). The dispatch is over when a completion hands control to
  \<open>pollHobjs\<close> instead of scheduling a retry.
\<close>

inductive draining :: "mqdefs \<Rightarrow> nat \<Rightarrow> nat \<Rightarrow> mqi \<Rightarrow> bool" for E :: mqdefs and a :: nat where
  picked: "\<lbrakk> i < length (inflight s); inflight s ! i = MQGET call; cl_c (call_cl call) = a;
      retrieved (heap s a) = 0 \<rbrakk> \<Longrightarrow> draining E a 0 s"
| picked_deferred: "\<lbrakk> j < length (timers s); timers s ! j = (t, Immediate, PollHObjInternal cl);
      cl_c cl = a; retrieved (heap s a) = 0 \<rbrakk> \<Longrightarrow> draining E a 0 s"
| fired: "\<lbrakk> draining E a n s; j < length (timers s);
      timers s ! j = (t, d, PollHObjInternal cl); cl_c cl = a \<rbrakk>
      \<Longrightarrow> draining E a n (step E rnd now (Fire j) s)"
| delivered_retry: "\<lbrakk> draining E a n s; i < length (inflight s); inflight s ! i = MQGET call;
      cl_c (call_cl call) = a; out_cc out = MQCC_OK E; jsgmo (heap s a) \<noteq> None;
      s1 = step E rnd now (Complete i out ed) s;
      timers s1 = timers s @ [(t, Timeout (Num 0), PollHObjInternal cl)]; cl_c cl = a \<rbrakk>
      \<Longrightarrow> draining E a (Suc n) s1"
| truncated_retry: "\<lbrakk> draining E a n s; i < length (inflight s); inflight s ! i = MQGET call;
      cl_c (call_cl call) = a; out_cc out \<noteq> MQCC_OK E;
      out_rc out = MQRC_TRUNCATED_MSG_FAILED E \<rbrakk>
      \<Longrightarrow> draining E a n (step E rnd now (Complete i out ed) s)"
| no_message_delay: "\<lbrakk> draining E a n s; i < length (inflight s); inflight s ! i = MQGET call;
      cl_c (call_cl call) = a; out_cc out \<noteq> MQCC_OK E;
      out_rc out = MQRC_NO_MSG_AVAILABLE E;
      MQRC_NO_MSG_AVAILABLE E \<noteq> MQRC_TRUNCATED_MSG_FAILED E;
      \<not> waitExpired E (heap s a) now; length (contextMap s) \<le> 1 \<rbrakk>
      \<Longrightarrow> draining E a n (step E rnd now (Complete i out ed) s)"
| other_tick: "\<lbrakk> draining E a n s; s1 = step E rnd now ev s;
      \<forall>i out ed call. ev = Complete i out ed \<and> i < length (inflight s) \<and>
         inflight s ! i = MQGET call \<longrightarrow> cl_c (call_cl call) \<noteq> a;
      retrieved (heap s1 a) = retrieved (heap s a);
      maxConsecutiveGets (tuningParameters s1) = maxConsecutiveGets (tuningParameters s) \<rbrakk>
      \<Longrightarrow> draining E a n s1"





definition capOneAndHalf :: mqi where
  "capOneAndHalf = run ibmDefs [(noRandom, 0, SetTuning (Num (3 / 2)) (Num 10000) (Num 250)),
     (noRandom, 0, ApiGet (queue 1 1) md0 (gmoWait 2000) 7),
     (noRandom, 1, Fire 0), (noRandom, 5, Complete 0 (gotMsg 10) idEd),
     (noRandom, 6, Fire 0), (noRandom, 7, Complete 0 (gotMsg 11) idEd)] init"

text \<open>The connection a transport call in flight works on.\<close>

definition pending_hConn :: "pending \<Rightarrow> int" where
  "pending_hConn p = (case p of MQGET call \<Rightarrow> call_hConn call | MQVERB hc \<Rightarrow> hc)"

text \<open>
  What holds of the module's variables at every tick. The keys of the registry are distinct,
  so are its contexts; each context is stored under the key of its own object. Every
  reference held by the registry, by a pending closure or by a call in flight is in use.
  A call in flight was issued on the connection of its context, no two calls in flight are
  on the same connection, and the gate of a connection is held exactly when a call on it
  is in flight.
\<close>

definition wellformed :: "mqi \<Rightarrow> bool" where
  "wellformed s =
     (distinct (map fst (contextMap s)) \<and> distinct (map snd (contextMap s)) \<and>
      (\<forall>(k, a) \<in> set (contextMap s).
          a < nextRef s \<and> getKey (Some (object (heap s a))) = Some k) \<and>
      (\<forall>(t, d, k) \<in> set (timers s). \<forall>cl. k = PollHObjInternal cl \<longrightarrow> cl_c cl < nextRef s) \<and>
      (\<forall>p \<in> set (inflight s). \<forall>call. p = MQGET call \<longrightarrow>
          cl_c (call_cl call) < nextRef s \<and>
          call_hConn call = hConn (object (heap s (cl_c (call_cl call))))) \<and>
      distinct (map pending_hConn (inflight s)) \<and>
      (\<forall>hc. isLocked hc s \<longleftrightarrow> hc \<in> pending_hConn ` set (inflight s)))"

text \<open>Registrations on two connections, both being polled.\<close>

definition twoConns :: mqi where
  "twoConns = run ibmDefs [(noRandom, 0, ApiGet (queue 1 1) md0 (gmoWait 2000) 7),
     (noRandom, 0, ApiGet (queue 2 1) md0 (gmoWait 2000) 8), (noRandom, 1, Fire 0)] init"

text \<open>A second \<^verbatim>\<open>Get\<close> for a queue that is registered already.\<close>

definition reRegistered :: mqi where
  "reRegistered = step ibmDefs noRandom 2 (ApiGet (queue 1 1) md0 (gmoWait 500) 9) polling1"

text \<open>
  What the MQGET that was in flight at the second \<^verbatim>\<open>Get\<close> does when it completes: with
  a message at time 5 (\<open>servedOld\<close>); without one at time 1000, when the 500 ms of the
  second registration have passed and the 2000 ms of the first have not (\<open>waitingOld\<close>);
  without one at time 2500 (\<open>expiredOld\<close>).
\<close>

definition servedOld :: mqi where
  "servedOld = step ibmDefs noRandom 5 (Complete 0 (gotMsg 10) idEd) reRegistered"

definition waitingOld :: mqi where
  "waitingOld = step ibmDefs noRandom 1000 (Complete 0 noMsg idEd) reRegistered"

definition expiredOld :: mqi where
  "expiredOld = step ibmDefs noRandom 2500 (Complete 0 noMsg idEd) reRegistered"

text \<open>
  The closure of the cancelled registration of \<open>cancelled\<close> at the end of its delay: its
  timer fires and the MQGET it issues finds a message.
\<close>

definition cancelledServed :: mqi where
  "cancelledServed = run ibmDefs [(noRandom, 10005, Fire 0),
     (noRandom, 10006, Complete 0 (gotMsg 10) idEd)] cancelled"

text \<open>
  A message of 20000 bytes, then one of 100 bytes, then one of 30000 bytes on one queue. The
  first attempt is truncated and the retry, with a buffer of 20480 bytes, delivers the first
  message; the next attempt delivers the second (\<open>bigThenSmall\<close>, when its handler has
  returned). \<open>attemptAfterSmall\<close> is the module when the retry scheduled by that delivery
  has issued its MQGET; this one is truncated, and \<open>retryAfterShrink\<close> is the module when
  the retry of the truncated attempt has issued its MQGET.
\<close>

definition bigThenSmall :: mqi where
  "bigThenSmall = run ibmDefs [(noRandom, 0, ApiGet (queue 1 1) md0 (gmoWait 2000) 7),
     (noRandom, 1, Fire 0), (noRandom, 5, Complete 0 (truncated 20000) idEd),
     (noRandom, 6, Fire 0), (noRandom, 7, Complete 0 (gotMsg 20000) idEd),
     (noRandom, 8, Fire 0), (noRandom, 9, Complete 0 (gotMsg 100) idEd)] init"

definition attemptAfterSmall :: mqi where
  "attemptAfterSmall = step ibmDefs noRandom 10 (Fire 0) bigThenSmall"

definition retryAfterShrink :: mqi where
  "retryAfterShrink = run ibmDefs [(noRandom, 11, Complete 0 (truncated 30000) idEd),
     (noRandom, 12, Fire 0)] attemptAfterSmall"

text \<open>
  A single registration with a wait interval of 2000 ms on a queue that never has a message:
  the second attempt finds the interval passed, the handler gets the error and does not call
  \<^verbatim>\<open>GetDone\<close>, and the pass that \<open>pollHobjs\<close> scheduled finds the connection without
  contexts. \<open>stalled\<close> is the module after a further \<^verbatim>\<open>Get\<close>, for another queue.
\<close>

definition idleAfterTimeout :: mqi where
  "idleAfterTimeout = run ibmDefs [(noRandom, 0, ApiGet (queue 1 1) md0 (gmoWait 2000) 7),
     (noRandom, 1, Fire 0), (noRandom, 5, Complete 0 noMsg idEd), (noRandom, 10005, Fire 0),
     (noRandom, 10006, Complete 0 noMsg idEd), (noRandom, 20006, Fire 0)] init"

definition stalled :: mqi where
  "stalled = step ibmDefs noRandom 30000 (ApiGet (queue 1 2) md0 (gmoWait 2000) 8)
     idleAfterTimeout"

section \<open>Properties\<close>

subsection \<open>What polling leaves alone\<close>

lemma sameRequest_refl [simp]: "sameRequest c c"
  by (simp add: sameRequest_def)

lemma sameRequest_trans: "sameRequest c c' \<Longrightarrow> sameRequest c' c'' \<Longrightarrow> sameRequest c c''"
  by (simp add: sameRequest_def)

lemma pollHObjInternal_heap: "sameRequest (heap s x) (heap (pollHObjInternal E now cl s) x)"
  by (simp add: pollHObjInternal_def Let_def setImmediate_def lock_def updCtx_def
      sameRequest_def split: option.splits)

lemma pollHObjInternal_frame:
  "contextMap (pollHObjInternal E now cl s) = contextMap s \<and>
   calls (pollHObjInternal E now cl s) = calls s \<and>
   tuningParameters (pollHObjInternal E now cl s) = tuningParameters s \<and>
   getLoop (pollHObjInternal E now cl s) = getLoop s \<and>
   scheduledGetLoop (pollHObjInternal E now cl s) = scheduledGetLoop s \<and>
   hConnsInPoll (pollHObjInternal E now cl s) = hConnsInPoll s"
  by (simp add: pollHObjInternal_def Let_def setImmediate_def lock_def updCtx_def
      split: option.splits)

lemma initGet_heap: "sameRequest (heap s x) (heap (initGet E now c s) x)"
  by (simp add: initGet_def pollHObj_def pollHObjInternal_heap split: option.splits)

lemma initGet_frame:
  "contextMap (initGet E now c s) = contextMap s \<and>
   calls (initGet E now c s) = calls s \<and>
   tuningParameters (initGet E now c s) = tuningParameters s \<and>
   getLoop (initGet E now c s) = getLoop s \<and>
   scheduledGetLoop (initGet E now c s) = scheduledGetLoop s \<and>
   hConnsInPoll (initGet E now c s) = hConnsInPoll s"
  by (simp add: initGet_def pollHObj_def pollHObjInternal_frame split: option.splits)

lemma pollHobjs_heap: "sameRequest (heap s x) (heap (pollHobjs E rnd now hc s) x)"
proof -
  have "sameRequest (heap s x)
          (heap (initGet E now c (updCtx c (\<lambda>c. c\<lparr> retrieved := 0 \<rparr>)
                   (s\<lparr> scheduledGetLoop := False \<rparr>))) x)" for c
    by (rule sameRequest_trans [OF _ initGet_heap]) (simp add: updCtx_def sameRequest_def)
  then show ?thesis
    by (simp add: pollHobjs_def Let_def setTimeout_def split: list.splits)
qed

lemma pollHobjs_frame:
  "contextMap (pollHobjs E rnd now hc s) = contextMap s \<and>
   calls (pollHobjs E rnd now hc s) = calls s \<and>
   tuningParameters (pollHobjs E rnd now hc s) = tuningParameters s \<and>
   getLoop (pollHobjs E rnd now hc s) = getLoop s \<and>
   hConnsInPoll (pollHobjs E rnd now hc s) = hConnsInPoll s"
  by (simp add: pollHobjs_def Let_def setTimeout_def initGet_frame updCtx_def
      split: list.splits)

lemma unlock_not_locked: "\<not> isLocked hc (unlock hc s)"
  by (simp add: isLocked_def unlock_def delete_conv')

lemma polling1_eval:
  "bufSize (heap polling1 0) = 10240 \<and> buf (heap polling1 0) = Some 10240 \<and>
   inflight polling1 = [MQGET call1] \<and> contextMap polling1 = [(''1/1'', 0)] \<and>
   timers polling1 = [] \<and> calls polling1 = [] \<and> nextTimer polling1 = 1"
  by code_simp

subsection \<open>Truncation\<close>

lemma callback_truncated:
  assumes "out_cc out \<noteq> MQCC_OK E" and "out_rc out = MQRC_TRUNCATED_MSG_FAILED E"
  shows "MQGET_callback E rnd now ed call out s =
     snd (setTimeout
            (PollHObjInternal \<lparr> cl_c = cl_c (call_cl call),
               cl_jsmd = copyMDfromC E (out_mqMd out) (cl_jsmd (call_cl call)),
               cl_jsgmo = copyGMOfromC E (out_mqGmo out) (cl_jsgmo (call_cl call)) \<rparr>) (Num 0)
            (updCtx (cl_c (call_cl call)) (\<lambda>c. c\<lparr> bufSize := growBufSize (bufSize c) \<rparr>)
               (unlock (hConn (object (heap s (cl_c (call_cl call))))) s)))"
  using assms by (simp add: MQGET_callback_def Let_def)

lemma growBufSize_min: "growBufSize b = min (b * 2) (100 * 1024 * 1024)"
  by (simp add: growBufSize_def maxBufSize_def Let_def min_def)

text \<open>
  The truncation branch. When the callback of an MQGET sees a completion code other than
  \<open>MQCC_OK\<close> with reason \<open>MQRC_TRUNCATED_MSG_FAILED\<close>, the field \<open>bufSize\<close> of the
  context becomes twice its previous value, clamped at 100 MiB; the same closure is scheduled
  again with \<^verbatim>\<open>setTimeout(..., 0)\<close> and nothing else is scheduled; no handler is called
  and the registry is as before. When that timer runs with the gate free, the MQGET it issues
  gets a buffer of the larger of the buffer's previous length and the new \<open>bufSize\<close>:
  the buffer is allocated anew only if it is shorter than \<open>bufSize\<close>.
\<close>

lemma truncation_branch:
  assumes "out_cc out \<noteq> MQCC_OK E" and "out_rc out = MQRC_TRUNCATED_MSG_FAILED E"
  shows "let a = cl_c (call_cl call);
             s' = MQGET_callback E rnd now ed call out s;
             retry = \<lparr> cl_c = a,
               cl_jsmd = copyMDfromC E (out_mqMd out) (cl_jsmd (call_cl call)),
               cl_jsgmo = copyGMOfromC E (out_mqGmo out) (cl_jsgmo (call_cl call)) \<rparr>
         in bufSize (heap s' a) = min (bufSize (heap s a) * 2) (100 * 1024 * 1024) \<and>
            timers s' = timers s @ [(nextTimer s, Timeout (Num 0), PollHObjInternal retry)] \<and>
            calls s' = calls s \<and> contextMap s' = contextMap s \<and> inflight s' = inflight s \<and>
            (\<forall>len. buf (heap s a) = Some len \<longrightarrow>
               (\<exists>c'. inflight (pollHObjInternal E now' retry s') = inflight s @ [MQGET c'] \<and>
                     call_cl c' = retry \<and>
                     call_bufflen c' = max len (bufSize (heap s' a))))"
  unfolding Let_def callback_truncated [OF assms]
  by (auto simp add: setTimeout_def updCtx_def unlock_def growBufSize_min
      pollHObjInternal_def isLocked_def delete_conv' Let_def lock_def)

lemma truncation_first_attempt:
  "buf (heap completing1 0) = Some 10240 \<and>
   bufSize (heap (MQGET_callback ibmDefs noRandom 5 idEd call1 (truncated 20000) completing1) 0)
     = 20480 \<and>
   (\<exists>c'. inflight (pollHObjInternal ibmDefs 6
             \<lparr> cl_c = 0, cl_jsmd = copyMDfromC ibmDefs (out_mqMd (truncated 20000)) md0,
               cl_jsgmo = copyGMOfromC ibmDefs (out_mqGmo (truncated 20000)) (gmoWait 2000) \<rparr>
             (MQGET_callback ibmDefs noRandom 5 idEd call1 (truncated 20000) completing1))
           = [MQGET c'] \<and> call_bufflen c' = 20480)"
proof -
  have h1: "out_cc (truncated 20000) \<noteq> MQCC_OK ibmDefs"
    by (simp add: truncated_def ibmDefs_def)
  have h2: "out_rc (truncated 20000) = MQRC_TRUNCATED_MSG_FAILED ibmDefs"
    by (simp add: truncated_def ibmDefs_def)
  have e: "buf (heap completing1 0) = Some 10240" "bufSize (heap completing1 0) = 10240"
    "inflight completing1 = []"
    using polling1_eval by (simp_all add: completing1_def)
  show ?thesis
    using truncation_branch [OF h1 h2, of call1 noRandom 5 idEd completing1 6] h1 h2 e
    by (auto simp add: Let_def call1_def)
qed

lemma polling2_eval:
  "bufSize (heap polling2 0) = 20480 \<and> buf (heap polling2 0) = Some 20480 \<and>
   inflight polling2 = [MQGET call2] \<and> jsgmo (heap polling2 0) = Some (gmoWait 2000)"
  by code_simp

subsection \<open>Delivery\<close>

lemma callback_success:
  assumes "out_cc out = MQCC_OK E" and "jsgmo (heap s (cl_c (call_cl call))) = Some tmpl"
  shows "MQGET_callback E rnd now ed call out s =
     (let a = cl_c (call_cl call);
          md = copyMDfromC E (out_mqMd out) (cl_jsmd (call_cl call));
          gmo = copyGMOfromC E (out_mqGmo out) (cl_jsgmo (call_cl call));
          s4 = delivered E now ed call out tmpl s
      in if jsLess (Num (real_of_int (retrieved (heap s a) + 1)))
              (maxConsecutiveGets (tuningParameters s)) then
           snd (setTimeout (PollHObjInternal \<lparr> cl_c = a, cl_jsmd = snd (ed (gmo, md)),
                  cl_jsgmo = fst (ed (gmo, md)) \<rparr>) (Num 0) s4)
         else pollHobjs E rnd now (hConn (object (heap s a))) s4)"
  using assms
  by (simp add: MQGET_callback_def delivered_def Let_def updCtx_def invoke_def unlock_def)

lemma delivered_fields:
  "heap (delivered E now ed call out tmpl s) x =
     (if x = cl_c (call_cl call) then
        (heap s x)\<lparr> retrieved := retrieved (heap s x) + 1, state := Running,
              WaitInterval := GmoWaitInterval tmpl, WaitStartTime := now,
              jsgmo := Some (tmpl\<lparr> Options := Options (fst (ed
                  (copyGMOfromC E (out_mqGmo out) (cl_jsgmo (call_cl call)),
                   copyMDfromC E (out_mqMd out) (cl_jsmd (call_cl call))))) \<rparr>),
              bufSize := shrinkBufSize (bufSize (heap s x)) (out_datalen out) \<rparr>
      else heap s x)"
  by (simp add: delivered_def Let_def updCtx_def invoke_def unlock_def)


lemma delivered_calls:
  "calls (delivered E now ed call out tmpl s) =
     calls s @ [GetCb (cb (heap s (cl_c (call_cl call)))) None
       (object (heap s (cl_c (call_cl call))))
       (Some (copyGMOfromC E (out_mqGmo out) (cl_jsgmo (call_cl call))))
       (Some (copyMDfromC E (out_mqMd out) (cl_jsmd (call_cl call))))
       (case buf (heap s (cl_c (call_cl call))) of None \<Rightarrow> None
        | Some n \<Rightarrow> Some (out_datalen out))]"
  by (simp add: delivered_def Let_def updCtx_def invoke_def unlock_def)

lemma shrinkBufSize_real:
  "shrinkBufSize b n =
     (if b > 10240 \<and> real_of_int n < 0.9 * real_of_int b
      then max \<lfloor>0.9 * real_of_int b\<rfloor> 10240 else b)"
proof -
  have f: "\<lfloor>0.9 * real_of_int b\<rfloor> = (b * 90) div 100"
  proof -
    have "0.9 * real_of_int b = real_of_int (b * 90) / real_of_int 100" by simp
    then show ?thesis by (simp only: floor_divide_of_int_eq)
  qed
  have c: "real_of_int n < 0.9 * real_of_int b \<longleftrightarrow> b * 90 > n * 100"
  proof -
    have "real_of_int n < 0.9 * real_of_int b \<longleftrightarrow>
          real_of_int (n * 100) < real_of_int (b * 90)"
      by (simp add: mult.commute)
    then show ?thesis by (simp only: of_int_less_iff)
  qed
  show ?thesis
    unfolding f c by (simp add: shrinkBufSize_def defaultBufSize_def Let_def max_def)
qed

text \<open>
  The heuristic after a delivery. When the callback of an MQGET sees \<open>MQCC_OK\<close> for a
  context registered by \<^verbatim>\<open>Get\<close> (its options template is stored), the field
  \<open>bufSize\<close> of the context afterwards is: if its previous value \<open>b\<close> exceeds 10240 and
  the data length is below 90 percent of \<open>b\<close>, the floor of 90 percent of \<open>b\<close>, but at
  least 10240; in every other case \<open>b\<close>.
\<close>

lemma delivery_shrinks_bufSize:
  assumes "out_cc out = MQCC_OK E" and "jsgmo (heap s (cl_c (call_cl call))) \<noteq> None"
  shows "let a = cl_c (call_cl call);
             b = bufSize (heap s a);
             s' = MQGET_callback E rnd now ed call out s
         in bufSize (heap s' a) =
              (if b > 10240 \<and> real_of_int (out_datalen out) < 0.9 * real_of_int b
               then max \<lfloor>0.9 * real_of_int b\<rfloor> 10240 else b)"
proof -
  from assms(2) obtain tmpl where t: "jsgmo (heap s (cl_c (call_cl call))) = Some tmpl"
    by auto
  let ?a = "cl_c (call_cl call)"
  let ?s4 = "delivered E now ed call out tmpl s"
  have b4: "bufSize (heap ?s4 ?a) = shrinkBufSize (bufSize (heap s ?a)) (out_datalen out)"
    by (simp add: delivered_fields)
  have p: "bufSize (heap (pollHobjs E rnd now hc ?s4) ?a) = bufSize (heap ?s4 ?a)" for hc
    using pollHobjs_heap [of ?s4 ?a E rnd now hc] by (simp add: sameRequest_def)
  have "bufSize (heap (MQGET_callback E rnd now ed call out s) ?a) =
          shrinkBufSize (bufSize (heap s ?a)) (out_datalen out)"
    unfolding callback_success [OF assms(1) t] Let_def
    by (simp add: p b4 setTimeout_def)
  then show ?thesis
    by (simp add: Let_def shrinkBufSize_real)
qed

text \<open>
  C4, at an input where the code departs from it. A queue holds a message of 20000 bytes
  and then one of 100 bytes. The second message is delivered from a buffer of 20480 bytes;
  100 is below 90 percent of 20480, and the field \<open>bufSize\<close> becomes 18432, the floor of
  90 percent. The next attempt, started by the retry that this delivery scheduled, passes
  MQGET a buffer of 20480 bytes all the same: \<^verbatim>\<open>pollHObjInternal\<close> allocates a buffer
  only when there is none or the one at hand is shorter than \<open>bufSize\<close>, so a lowered
  \<open>bufSize\<close> never reaches the buffer that an attempt uses.
\<close>

theorem shrunk_capacity_not_used:
  "calls bigThenSmall =
     [GetCb 7 None (queue 1 1) (Some ((gmoWait 0)\<lparr> Options := 0 \<rparr>)) (Some md0) (Some 20000),
      GetCb 7 None (queue 1 1) (Some ((gmoWait 0)\<lparr> Options := 0 \<rparr>)) (Some md0) (Some 100)] \<and>
   buf (heap bigThenSmall 0) = Some 20480 \<and>
   bufSize (heap bigThenSmall 0) = 18432 \<and>
   bufSize (heap attemptAfterSmall 0) = 18432 \<and>
   inflight attemptAfterSmall = [MQGET call2] \<and> call_bufflen call2 = 20480"
  by code_simp

text \<open>
  C3, at an input where the code departs from it. The attempt in flight in
  \<open>attemptAfterSmall\<close> has a buffer of 20480 bytes, while \<open>bufSize\<close> is 18432 since the
  delivery before. The attempt is truncated by a message of 30000 bytes; no handler is
  called and the retry is scheduled with delay zero, but the attempt that the retry starts
  has a buffer of 36864 bytes: twice the lowered \<open>bufSize\<close>, not twice the 20480 bytes
  of the attempt before, which would be 40960.
\<close>

theorem truncation_after_shrink_not_doubled:
  "inflight attemptAfterSmall = [MQGET call2] \<and> call_bufflen call2 = 20480 \<and>
   timers (step ibmDefs noRandom 11 (Complete 0 (truncated 30000) idEd) attemptAfterSmall) =
     [(4, Timeout (Num 0), PollHObjInternal (call_cl call2))] \<and>
   calls retryAfterShrink = calls attemptAfterSmall \<and>
   bufSize (heap retryAfterShrink 0) = 36864 \<and>
   inflight retryAfterShrink = [MQGET (call2\<lparr> call_bufflen := 36864 \<rparr>)]"
  by code_simp

text \<open>
  C10. On a delivery (\<open>MQCC_OK\<close>) for a context whose stored options template is
  \<open>tmpl\<close>, the handler is called once with the working copies, and afterwards the stored
  template is \<open>tmpl\<close> with its \<open>Options\<close> replaced by the \<open>Options\<close> of the working
  copy as the handler left it; every other field of the template is as before. The wait
  interval of the context is the one of the template and the wait start time is the clock
  reading taken after the handler returned. The stored descriptor template is not written,
  and no other context's request data changes.
\<close>

theorem success_writes_back_options:
  assumes "out_cc out = MQCC_OK E" and "jsgmo (heap s (cl_c (call_cl call))) = Some tmpl"
  shows "let a = cl_c (call_cl call);
             gmo = copyGMOfromC E (out_mqGmo out) (cl_jsgmo (call_cl call));
             md = copyMDfromC E (out_mqMd out) (cl_jsmd (call_cl call));
             s' = MQGET_callback E rnd now ed call out s
         in jsgmo (heap s' a) = Some (tmpl\<lparr> Options := Options (fst (ed (gmo, md))) \<rparr>) \<and>
            WaitInterval (heap s' a) = GmoWaitInterval tmpl \<and>
            WaitStartTime (heap s' a) = now \<and>
            jsmd (heap s' a) = jsmd (heap s a) \<and>
            (\<forall>x. x \<noteq> a \<longrightarrow> sameRequest (heap s x) (heap s' x)) \<and>
            calls s' = calls s @ [GetCb (cb (heap s a)) None (object (heap s a))
               (Some gmo) (Some md)
               (case buf (heap s a) of None \<Rightarrow> None | Some n \<Rightarrow> Some (out_datalen out))]"
proof -
  let ?a = "cl_c (call_cl call)"
  let ?s4 = "delivered E now ed call out tmpl s"
  have p: "sameRequest (heap ?s4 x) (heap (pollHobjs E rnd now hc ?s4) x)" for hc x
    by (rule pollHobjs_heap)
  have q: "calls (pollHobjs E rnd now hc ?s4) = calls ?s4" for hc
    by (simp add: pollHobjs_frame)
  show ?thesis
    unfolding callback_success [OF assms] Let_def
    using p q
    by (auto simp add: setTimeout_def delivered_fields delivered_calls sameRequest_def)
qed

theorem success_writes_back_options_witness:
  "out_cc (gotMsg 10) = MQCC_OK ibmDefs \<and>
   jsgmo (heap completing1 0) = Some (gmoWait 2000) \<and>
   jsgmo (heap (MQGET_callback ibmDefs noRandom 5 browseNext call1 (gotMsg 10) completing1) 0)
     = Some \<lparr> Options = 32, GmoWaitInterval = 2000, MsgToken = [], GmoOther = [] \<rparr> \<and>
   WaitInterval (heap (MQGET_callback ibmDefs noRandom 5 browseNext call1 (gotMsg 10)
     completing1) 0) = 2000 \<and>
   WaitStartTime (heap (MQGET_callback ibmDefs noRandom 5 browseNext call1 (gotMsg 10)
     completing1) 0) = 5"
proof -
  have h1: "out_cc (gotMsg 10) = MQCC_OK ibmDefs"
    by (simp add: gotMsg_def ibmDefs_def)
  have e: "jsgmo (heap completing1 0) = Some (gmoWait 2000)"
    by (simp add: completing1_def) code_simp
  have h2: "jsgmo (heap completing1 (cl_c (call_cl call1))) = Some (gmoWait 2000)"
    using e by (simp add: call1_def)
  show ?thesis
    using success_writes_back_options [OF h1 h2, of noRandom 5 browseNext] h1 e
    by (simp add: Let_def call1_def gmoWait_def browseNext_def)
qed

subsection \<open>GetDone\<close>


lemma polling1_registry:
  "getUserContext (Some (queue 9 9)) polling1 = None \<and>
   getUserContext None polling1 = None \<and>
   getUserContext (Some (queue 1 1)) polling1 = Some 0 \<and>
   getKey (Some (queue 1 1)) = Some ''1/1'' \<and> getLoop polling1 = Some 0"
  by code_simp


subsection \<open>No message\<close>

lemma waitExpired_iff:
  "waitExpired E c now \<longleftrightarrow>
     \<not> (WaitInterval c = MQWI_UNLIMITED E \<or> now - WaitStartTime c < WaitInterval c)"
  by (simp add: waitExpired_def Let_def)

lemma callback_no_message:
  assumes "out_cc out \<noteq> MQCC_OK E" and "out_rc out = MQRC_NO_MSG_AVAILABLE E"
    and "MQRC_NO_MSG_AVAILABLE E \<noteq> MQRC_TRUNCATED_MSG_FAILED E"
    and "\<not> waitExpired E (heap s (cl_c (call_cl call))) now"
  shows "MQGET_callback E rnd now ed call out s =
     (let a = cl_c (call_cl call); hc = hConn (object (heap s a))
      in if length (contextMap s) \<le> 1 then
           snd (setTimeout
              (PollHObjInternal \<lparr> cl_c = a,
                 cl_jsmd = copyMDfromC E (out_mqMd out) (cl_jsmd (call_cl call)),
                 cl_jsgmo = copyGMOfromC E (out_mqGmo out) (cl_jsgmo (call_cl call)) \<rparr>)
              (getLoopPollTimeMs (tuningParameters s)) (unlock hc s))
         else pollHobjs E rnd now hc (unlock hc s))"
  using assms by (simp add: MQGET_callback_def Let_def unlock_def)

lemma pollHObjInternal_timers:
  "timers (pollHObjInternal E now cl s) = timers s \<or>
   timers (pollHObjInternal E now cl s) = timers s @ [(nextTimer s, Immediate, PollHObjInternal cl)]"
  by (simp add: pollHObjInternal_def Let_def setImmediate_def lock_def updCtx_def
      split: option.splits)

lemma initGet_timers:
  "timers (initGet E now c s) = timers s \<or>
   (\<exists>cl. timers (initGet E now c s) = timers s @ [(nextTimer s, Immediate, PollHObjInternal cl)])"
proof (cases "jsgmo (heap s c)")
  case None
  then show ?thesis by (simp add: initGet_def)
next
  case g: (Some g)
  show ?thesis
  proof (cases "jsmd (heap s c)")
    case None
    then show ?thesis using g by (simp add: initGet_def)
  next
    case (Some m)
    then show ?thesis
      using g pollHObjInternal_timers [of E now "\<lparr> cl_c = c, cl_jsmd = m, cl_jsgmo = g \<rparr>" s]
      by (auto simp add: initGet_def pollHObj_def)
  qed
qed

lemma pollHobjs_timers:
  "timers (pollHobjs E rnd now hc s) = timers s \<or>
   (\<exists>d. timers (pollHobjs E rnd now hc s) = timers s @ [(nextTimer s, Timeout d, PollPerHconn hc)]) \<or>
   (\<exists>cl. timers (pollHobjs E rnd now hc s) = timers s @ [(nextTimer s, Immediate, PollHObjInternal cl)])"
proof -
  have i: "timers (initGet E now c (updCtx c f (s\<lparr> scheduledGetLoop := False \<rparr>))) = timers s \<or>
   (\<exists>cl. timers (initGet E now c (updCtx c f (s\<lparr> scheduledGetLoop := False \<rparr>))) = timers s @ [(nextTimer s, Immediate, PollHObjInternal cl)])" for c f
    using initGet_timers [of E now c "updCtx c f (s\<lparr> scheduledGetLoop := False \<rparr>)"]
    by (simp add: updCtx_def)
  show ?thesis
  proof (cases "hc = - 1 \<or> messagesRetrievedInHConnPoll s > 0 \<or>
      length (getRunningContexts s (getAllContextsForPoll hc s)) = 0")
    case True
    then show ?thesis
      by (auto simp add: pollHobjs_def Let_def setTimeout_def)
  next
    case False
    show ?thesis
    proof (cases "shuffle (rnd hc) (getRunningContexts s (getAllContextsForPoll hc s))")
      case Nil
      then show ?thesis using False by (simp add: pollHobjs_def Let_def)
    next
      case (Cons a list)
      then have "pollHobjs E rnd now hc s =
          initGet E now a (updCtx a (\<lambda>c. c\<lparr> retrieved := 0 \<rparr>) (s\<lparr> scheduledGetLoop := False \<rparr>))"
        using False by (simp add: pollHobjs_def Let_def)
      then show ?thesis
        using i [of a "\<lambda>c. c\<lparr> retrieved := 0 \<rparr>"] by auto
    qed
  qed
qed


text \<open>
  The branch for no message. When the callback of an MQGET sees reason
  \<open>MQRC_NO_MSG_AVAILABLE\<close> with a completion code other than \<open>MQCC_OK\<close>, and the wait
  interval of the context is unlimited or the time since its wait start is below it: if the
  registry holds at most one context (\<^verbatim>\<open>contextMap.size <= 1\<close>) the same closure is
  scheduled again after \<open>getLoopPollTimeMs\<close> and nothing else happens; if it holds more,
  control goes to \<open>pollHobjs\<close> of the connection and no delayed retry of a closure is
  scheduled. No handler is called and the registry is unchanged. For a context that is in the
  registry, the registry holding at most one context means that it is the only one, so for
  such a context the delayed retry is scheduled exactly when it is the only outstanding
  context.
\<close>

lemma no_message_branch:
  assumes "out_cc out \<noteq> MQCC_OK E" and "out_rc out = MQRC_NO_MSG_AVAILABLE E"
    and "MQRC_NO_MSG_AVAILABLE E \<noteq> MQRC_TRUNCATED_MSG_FAILED E"
    and "WaitInterval (heap s (cl_c (call_cl call))) = MQWI_UNLIMITED E \<or>
         now - WaitStartTime (heap s (cl_c (call_cl call))) < WaitInterval (heap s (cl_c (call_cl call)))"
  shows "let a = cl_c (call_cl call);
             hc = hConn (object (heap s a));
             s' = MQGET_callback E rnd now ed call out s;
             retry = \<lparr> cl_c = a,
               cl_jsmd = copyMDfromC E (out_mqMd out) (cl_jsmd (call_cl call)),
               cl_jsgmo = copyGMOfromC E (out_mqGmo out) (cl_jsgmo (call_cl call)) \<rparr>
         in (length (contextMap s) \<le> 1 \<longrightarrow>
               timers s' = timers s @ [(nextTimer s, Timeout (getLoopPollTimeMs (tuningParameters s)),
                                        PollHObjInternal retry)] \<and>
               inflight s' = inflight s \<and> heap s' = heap s) \<and>
            (length (contextMap s) > 1 \<longrightarrow>
               s' = pollHobjs E rnd now hc (unlock hc s) \<and>
               (\<forall>t d cl. (t, Timeout d, PollHObjInternal cl) \<in> set (timers s') \<longrightarrow>
                          (t, Timeout d, PollHObjInternal cl) \<in> set (timers s))) \<and>
            calls s' = calls s \<and> contextMap s' = contextMap s \<and>
            (a \<in> snd ` set (contextMap s) \<longrightarrow>
               (length (contextMap s) \<le> 1 \<longleftrightarrow> map snd (contextMap s) = [a]))"
proof -
  let ?a = "cl_c (call_cl call)"
  let ?hc = "hConn (object (heap s ?a))"
  have w: "\<not> waitExpired E (heap s ?a) now"
    using assms(4) by (simp add: waitExpired_iff)
  note cb = callback_no_message [OF assms(1-3) w, of rnd ed]
  have t: "(t, Timeout d, PollHObjInternal cl) \<in> set (timers (pollHobjs E rnd now ?hc (unlock ?hc s)))
        \<Longrightarrow> (t, Timeout d, PollHObjInternal cl) \<in> set (timers s)" for t d cl
    using pollHobjs_timers [of E rnd now ?hc "unlock ?hc s"]
    by (auto simp add: unlock_def)
  have f: "calls (pollHobjs E rnd now ?hc (unlock ?hc s)) = calls s"
      "contextMap (pollHobjs E rnd now ?hc (unlock ?hc s)) = contextMap s"
    by (simp_all add: pollHobjs_frame unlock_def)
  have l: "?a \<in> snd ` set (contextMap s) \<Longrightarrow>
      (length (contextMap s) \<le> 1 \<longleftrightarrow> map snd (contextMap s) = [?a])"
    by (cases "contextMap s"; cases "tl (contextMap s)") auto
  show ?thesis
    unfolding Let_def cb using t f l
    by (auto simp add: setTimeout_def unlock_def)
qed


lemma completing1_eval:
  "WaitInterval (heap completing1 0) = 2000 \<and> WaitStartTime (heap completing1 0) = 0 \<and>
   contextMap completing1 = [(''1/1'', 0)] \<and> timers completing1 = [] \<and>
   nextTimer completing1 = 1 \<and> getLoopPollTimeMs (tuningParameters completing1) = Num 10000"
  unfolding completing1_def by (simp, code_simp)

lemma completingTwo_eval:
  "WaitInterval (heap completingTwo 1) = 2000 \<and> WaitStartTime (heap completingTwo 1) = 0 \<and>
   contextMap completingTwo = [(''1/1'', 0), (''1/2'', 1)] \<and> timers completingTwo = []"
  unfolding completingTwo_def by (simp, code_simp)

lemma no_message_branch_example:
  "out_cc noMsg \<noteq> MQCC_OK ibmDefs \<and> out_rc noMsg = MQRC_NO_MSG_AVAILABLE ibmDefs \<and>
   MQRC_NO_MSG_AVAILABLE ibmDefs \<noteq> MQRC_TRUNCATED_MSG_FAILED ibmDefs \<and>
   5 - WaitStartTime (heap completing1 0) < WaitInterval (heap completing1 0) \<and>
   length (contextMap completing1) \<le> 1 \<and>
   timers (MQGET_callback ibmDefs noRandom 5 idEd call1 noMsg completing1) =
     [(1, Timeout (Num 10000), PollHObjInternal \<lparr> cl_c = 0, cl_jsmd = md0,
         cl_jsgmo = (gmoWait 0)\<lparr> Options := 0 \<rparr> \<rparr>)] \<and>
   5 - WaitStartTime (heap completingTwo 1) < WaitInterval (heap completingTwo 1) \<and>
   length (contextMap completingTwo) > 1 \<and>
   (\<forall>t d cl. (t, Timeout d, PollHObjInternal cl) \<notin>
      set (timers (MQGET_callback ibmDefs noRandom 5 idEd callB noMsg completingTwo)))"
proof -
  have h1: "out_cc noMsg \<noteq> MQCC_OK ibmDefs"
    and h2: "out_rc noMsg = MQRC_NO_MSG_AVAILABLE ibmDefs"
    and h3: "MQRC_NO_MSG_AVAILABLE ibmDefs \<noteq> MQRC_TRUNCATED_MSG_FAILED ibmDefs"
    by (simp_all add: noMsg_def ibmDefs_def)
  have w1: "WaitInterval (heap completing1 (cl_c (call_cl call1))) = MQWI_UNLIMITED ibmDefs \<or>
      5 - WaitStartTime (heap completing1 (cl_c (call_cl call1)))
        < WaitInterval (heap completing1 (cl_c (call_cl call1)))"
    using completing1_eval by (simp add: call1_def)
  have w2: "WaitInterval (heap completingTwo (cl_c (call_cl callB))) = MQWI_UNLIMITED ibmDefs \<or>
      5 - WaitStartTime (heap completingTwo (cl_c (call_cl callB)))
        < WaitInterval (heap completingTwo (cl_c (call_cl callB)))"
    using completingTwo_eval by (simp add: callB_def)
  have a: "timers (MQGET_callback ibmDefs noRandom 5 idEd call1 noMsg completing1) =
     [(1, Timeout (Num 10000), PollHObjInternal \<lparr> cl_c = 0, cl_jsmd = md0,
         cl_jsgmo = (gmoWait 0)\<lparr> Options := 0 \<rparr> \<rparr>)]"
    using no_message_branch [OF h1 h2 h3 w1, of noRandom idEd] completing1_eval
    by (simp add: Let_def call1_def noMsg_def ibmDefs_def)
  have b0: "length (contextMap completingTwo) > 1" "timers completingTwo = []"
    using completingTwo_eval by simp_all
  have "\<forall>t d cl. (t, Timeout d, PollHObjInternal cl) \<in>
      set (timers (MQGET_callback ibmDefs noRandom 5 idEd callB noMsg completingTwo)) \<longrightarrow>
      (t, Timeout d, PollHObjInternal cl) \<in> set (timers completingTwo)"
    using no_message_branch [OF h1 h2 h3 w2, of noRandom idEd] b0(1)
    unfolding Let_def by blast
  then have b: "\<forall>t d cl. (t, Timeout d, PollHObjInternal cl) \<notin>
      set (timers (MQGET_callback ibmDefs noRandom 5 idEd callB noMsg completingTwo))"
    using b0(2) by simp
  show ?thesis
    using h1 h2 h3 a b completing1_eval completingTwo_eval by simp
qed

text \<open>
  C6, at an input where the code departs from it. A registration is cancelled by
  \<^verbatim>\<open>GetDone\<close> while its MQGET is in flight; the registry is empty from then on. The
  MQGET completes without a message at time 5, the 2000 ms of the cancelled request not
  having passed. The cancelled context is not an outstanding context, let alone the only one,
  and yet its closure is scheduled again after \<open>getLoopPollTimeMs\<close>: the callback counts
  the contexts of the registry and does not ask whether its own is among them. When that
  timer fires, at time 10005, the closure issues another MQGET, and the message this one
  finds is handed to the handler of the cancelled registration.
\<close>

theorem self_delay_of_removed_context:
  "contextMap cancelled = [] \<and> calls cancelled = [] \<and> inflight cancelled = [] \<and>
   timers cancelled = [(1, Timeout (Num 10000), PollHObjInternal \<lparr> cl_c = 0, cl_jsmd = md0,
       cl_jsgmo = (gmoWait 0)\<lparr> Options := 0 \<rparr> \<rparr>)] \<and>
   cb (heap cancelled 0) = 7 \<and>
   contextMap cancelledServed = [] \<and>
   calls cancelledServed =
     [GetCb 7 None (queue 1 1) (Some ((gmoWait 0)\<lparr> Options := 0 \<rparr>)) (Some md0) (Some 10)]"
  by code_simp

subsection \<open>The cap on consecutive deliveries\<close>




















text \<open>
  Nor is the parameter a bound when it is not a whole number: with
  \<open>maxConsecutiveGets = 1.5\<close> the first delivery is followed by the zero-delay retry, since
  1 is below 1.5, and a second message is delivered in the same dispatch.
\<close>

lemma two_deliveries_with_cap_one_and_half:
  "maxConsecutiveGets (tuningParameters capOneAndHalf) = Num (3 / 2) \<and>
   calls capOneAndHalf =
     [GetCb 7 None (queue 1 1) (Some ((gmoWait 0)\<lparr> Options := 0 \<rparr>)) (Some md0) (Some 10),
      GetCb 7 None (queue 1 1) (Some ((gmoWait 0)\<lparr> Options := 0 \<rparr>)) (Some md0) (Some 11)] \<and>
   timers capOneAndHalf = [(2, Timeout (Num 250), PollPerHconn 1)] \<and>
   inflight capOneAndHalf = []"
  by code_simp

subsection \<open>The invariant\<close>

lemma wf_ctx:
  assumes "wellformed s" and "(k, a) \<in> set (contextMap s)"
  shows "a < nextRef s \<and> getKey (Some (object (heap s a))) = Some k"
proof -
  have "\<forall>(k, a) \<in> set (contextMap s).
          a < nextRef s \<and> getKey (Some (object (heap s a))) = Some k"
    using assms(1) by (simp add: wellformed_def)
  then show ?thesis using assms(2) by blast
qed

lemma wf_timer:
  assumes "wellformed s" and "(t, d, PollHObjInternal cl) \<in> set (timers s)"
  shows "cl_c cl < nextRef s"
proof -
  have "\<forall>(t, d, k) \<in> set (timers s). \<forall>cl. k = PollHObjInternal cl \<longrightarrow> cl_c cl < nextRef s"
    using assms(1) by (simp add: wellformed_def)
  then show ?thesis using assms(2) by blast
qed

lemma wf_call:
  assumes "wellformed s" and "MQGET call \<in> set (inflight s)"
  shows "cl_c (call_cl call) < nextRef s \<and>
     call_hConn call = hConn (object (heap s (cl_c (call_cl call))))"
proof -
  have "\<forall>p \<in> set (inflight s). \<forall>call. p = MQGET call \<longrightarrow>
          cl_c (call_cl call) < nextRef s \<and>
          call_hConn call = hConn (object (heap s (cl_c (call_cl call))))"
    using assms(1) by (simp add: wellformed_def)
  then show ?thesis using assms(2) by blast
qed

lemma wf_locked:
  assumes "wellformed s"
  shows "isLocked hc s \<longleftrightarrow> hc \<in> pending_hConn ` set (inflight s)"
  using assms by (simp add: wellformed_def)

lemma wfI:
  assumes "distinct (map fst (contextMap s))" and "distinct (map snd (contextMap s))"
    and "\<And>k a. (k, a) \<in> set (contextMap s) \<Longrightarrow>
           a < nextRef s \<and> getKey (Some (object (heap s a))) = Some k"
    and "\<And>t d cl. (t, d, PollHObjInternal cl) \<in> set (timers s) \<Longrightarrow> cl_c cl < nextRef s"
    and "\<And>call. MQGET call \<in> set (inflight s) \<Longrightarrow>
           cl_c (call_cl call) < nextRef s \<and>
           call_hConn call = hConn (object (heap s (cl_c (call_cl call))))"
    and "distinct (map pending_hConn (inflight s))"
    and "\<And>hc. isLocked hc s \<longleftrightarrow> hc \<in> pending_hConn ` set (inflight s)"
  shows "wellformed s"
proof -
  have 3: "\<forall>(k, a) \<in> set (contextMap s).
          a < nextRef s \<and> getKey (Some (object (heap s a))) = Some k"
    using assms(3) by blast
  have 4: "\<forall>(t, d, k) \<in> set (timers s). \<forall>cl. k = PollHObjInternal cl \<longrightarrow> cl_c cl < nextRef s"
    using assms(4) by blast
  have 5: "\<forall>p \<in> set (inflight s). \<forall>call. p = MQGET call \<longrightarrow>
          cl_c (call_cl call) < nextRef s \<and>
          call_hConn call = hConn (object (heap s (cl_c (call_cl call))))"
    using assms(5) by blast
  have 7: "\<forall>hc. isLocked hc s \<longleftrightarrow> hc \<in> pending_hConn ` set (inflight s)"
    using assms(7) by blast
  show ?thesis
    unfolding wellformed_def using assms(1,2,6) 3 4 5 7 by (intro conjI)
qed

lemma isLocked_lock: "isLocked h (lock hc now s) \<longleftrightarrow> h = hc \<or> isLocked h s"
  by (simp add: isLocked_def lock_def update_conv')

lemma isLocked_unlock: "isLocked h (unlock hc s) \<longleftrightarrow> h \<noteq> hc \<and> isLocked h s"
  by (simp add: isLocked_def unlock_def delete_conv')

lemma wf_fields [simp]:
  "wellformed (s\<lparr> scheduledGetLoop := b \<rparr>) = wellformed s"
  "wellformed (s\<lparr> getLoop := g \<rparr>) = wellformed s"
  "wellformed (s\<lparr> messagesRetrievedInHConnPoll := m \<rparr>) = wellformed s"
  "wellformed (s\<lparr> hConnsInPoll := hs \<rparr>) = wellformed s"
  "wellformed (s\<lparr> tuningParameters := tp \<rparr>) = wellformed s"
  "wellformed (s\<lparr> calls := cs \<rparr>) = wellformed s"
  by (simp_all add: wellformed_def isLocked_def)

lemma nextRef_simps [simp]:
  "nextRef (updCtx a f s) = nextRef s"
  "nextRef (invoke i s) = nextRef s"
  "nextRef (unlock hc s) = nextRef s"
  "nextRef (lock hc now s) = nextRef s"
  "nextRef (deleteUserContext ob s) = nextRef s"
  "nextRef (snd (setTimeout t d s)) = nextRef s"
  by (simp_all add: updCtx_def invoke_def unlock_def lock_def deleteUserContext_def
      setTimeout_def getKey_def)

lemma wf_updCtx:
  assumes "wellformed s" and "\<And>c. object (f c) = object c"
  shows "wellformed (updCtx a f s)"
proof (rule wfI)
  have o: "object (heap (updCtx a f s) x) = object (heap s x)" for x
    by (simp add: updCtx_def assms(2))
  show "b < nextRef (updCtx a f s) \<and> getKey (Some (object (heap (updCtx a f s) b))) = Some k"
    if "(k, b) \<in> set (contextMap (updCtx a f s))" for k b
    using that wf_ctx [OF assms(1), of k b] unfolding o by (simp add: updCtx_def)
  show "cl_c (call_cl call) < nextRef (updCtx a f s) \<and>
        call_hConn call = hConn (object (heap (updCtx a f s) (cl_c (call_cl call))))"
    if "MQGET call \<in> set (inflight (updCtx a f s))" for call
    using that wf_call [OF assms(1), of call] unfolding o by (simp add: updCtx_def)
  show "cl_c cl < nextRef (updCtx a f s)"
    if "(t, d, PollHObjInternal cl) \<in> set (timers (updCtx a f s))" for t d cl
    using that wf_timer [OF assms(1), of t d cl] by (simp add: updCtx_def)
  show "isLocked hc (updCtx a f s) \<longleftrightarrow> hc \<in> pending_hConn ` set (inflight (updCtx a f s))"
    for hc
    using wf_locked [OF assms(1), of hc] by (simp add: updCtx_def isLocked_def)
qed (use assms(1) in \<open>simp_all add: wellformed_def updCtx_def\<close>)

lemma wf_add_timer:
  assumes "wellformed s" and "\<And>cl. t = PollHObjInternal cl \<Longrightarrow> cl_c cl < nextRef s"
  shows "wellformed (s\<lparr> timers := timers s @ [(n, d, t)], nextTimer := m \<rparr>)"
proof (rule wfI)
  let ?s' = "s\<lparr> timers := timers s @ [(n, d, t)], nextTimer := m \<rparr>"
  show "b < nextRef ?s' \<and> getKey (Some (object (heap ?s' b))) = Some k"
    if "(k, b) \<in> set (contextMap ?s')" for k b
    using that wf_ctx [OF assms(1), of k b] by simp
  show "cl_c (call_cl call) < nextRef ?s' \<and>
        call_hConn call = hConn (object (heap ?s' (cl_c (call_cl call))))"
    if "MQGET call \<in> set (inflight ?s')" for call
    using that wf_call [OF assms(1), of call] by simp
  show "cl_c cl < nextRef ?s'" if "(t', d', PollHObjInternal cl) \<in> set (timers ?s')" for t' d' cl
  proof -
    have "(t', d', PollHObjInternal cl) \<in> set (timers s) \<or> t = PollHObjInternal cl"
      using that by auto
    then show ?thesis using wf_timer [OF assms(1), of t' d' cl] assms(2) [of cl] by auto
  qed
  show "isLocked hc ?s' \<longleftrightarrow> hc \<in> pending_hConn ` set (inflight ?s')" for hc
    using wf_locked [OF assms(1), of hc] by (simp add: isLocked_def)
qed (use assms(1) in \<open>simp_all add: wellformed_def\<close>)

lemma wf_setTimeout:
  assumes "wellformed s" and "\<And>cl. t = PollHObjInternal cl \<Longrightarrow> cl_c cl < nextRef s"
  shows "wellformed (snd (setTimeout t d s))"
  using wf_add_timer [OF assms] by (simp add: setTimeout_def)

lemma wf_setImmediate:
  assumes "wellformed s" and "\<And>cl. t = PollHObjInternal cl \<Longrightarrow> cl_c cl < nextRef s"
  shows "wellformed (setImmediate t s)"
  using wf_add_timer [OF assms] by (simp add: setImmediate_def)

lemma wf_invoke: "wellformed s \<Longrightarrow> wellformed (invoke i s)"
  by (simp add: invoke_def)

lemma wf_resetGetLoop: "wellformed s \<Longrightarrow> wellformed (resetGetLoop s)"
  by (simp add: resetGetLoop_def)

lemma wf_deleteUserContext: "wellformed s \<Longrightarrow> wellformed (deleteUserContext ob s)"
proof -
  assume w: "wellformed s"
  obtain key where k: "getKey (Some ob) = Some key" by (simp add: getKey_def)
  let ?s' = "s\<lparr> contextMap := AList.delete key (contextMap s) \<rparr>"
  have m: "map snd (AList.delete key al) = map snd (filter (\<lambda>p. fst p \<noteq> key) al)"
    for al :: "(string \<times> nat) list"
    by (induction al) auto
  have sub: "set (AList.delete key (contextMap s)) \<subseteq> set (contextMap s)"
    by (auto simp add: AList.delete_eq)
  have "wellformed ?s'"
  proof (rule wfI)
    show "distinct (map fst (contextMap ?s'))"
      using w by (simp add: wellformed_def distinct_delete)
    show "distinct (map snd (contextMap ?s'))"
      using w by (simp add: m wellformed_def distinct_map_filter)
    show "b < nextRef ?s' \<and> getKey (Some (object (heap ?s' b))) = Some k'"
      if "(k', b) \<in> set (contextMap ?s')" for k' b
    proof -
      have "(k', b) \<in> set (contextMap s)" using that sub by auto
      then show ?thesis using wf_ctx [OF w] by simp
    qed
    show "cl_c (call_cl call) < nextRef ?s' \<and>
          call_hConn call = hConn (object (heap ?s' (cl_c (call_cl call))))"
      if "MQGET call \<in> set (inflight ?s')" for call
      using that wf_call [OF w, of call] by simp
    show "cl_c cl < nextRef ?s'" if "(t, d, PollHObjInternal cl) \<in> set (timers ?s')" for t d cl
      using that wf_timer [OF w, of t d cl] by simp
    show "isLocked hc ?s' \<longleftrightarrow> hc \<in> pending_hConn ` set (inflight ?s')" for hc
      using wf_locked [OF w, of hc] by (simp add: isLocked_def)
    show "distinct (map pending_hConn (inflight ?s'))"
      using w by (simp add: wellformed_def)
  qed
  then show ?thesis using k by (simp add: deleteUserContext_def)
qed

lemma wf_issue:
  assumes "wellformed s" and "a < nextRef s" and "\<not> isLocked (hConn (object (heap s a))) s"
    and "cl_c (call_cl call) = a" and "call_hConn call = hConn (object (heap s a))"
    and "\<And>c. object (f c) = object c"
  shows "wellformed ((updCtx a f (lock (hConn (object (heap s a))) now s))
           \<lparr> inflight := inflight s @ [MQGET call] \<rparr>)"
proof (rule wfI)
  let ?hc = "hConn (object (heap s a))"
  let ?s' = "(updCtx a f (lock ?hc now s))\<lparr> inflight := inflight s @ [MQGET call] \<rparr>"
  have o: "object (heap ?s' x) = object (heap s x)" for x
    by (simp add: updCtx_def lock_def assms(6))
  have n: "?hc \<notin> pending_hConn ` set (inflight s)"
    using assms(3) wf_locked [OF assms(1)] by simp
  show "distinct (map pending_hConn (inflight ?s'))"
    using assms(1,5) n by (simp add: wellformed_def pending_hConn_def)
  show "isLocked hc ?s' \<longleftrightarrow> hc \<in> pending_hConn ` set (inflight ?s')" for hc
  proof -
    have "isLocked hc ?s' \<longleftrightarrow> hc = ?hc \<or> isLocked hc s"
      by (simp add: isLocked_def lock_def updCtx_def update_conv')
    then show ?thesis
      using wf_locked [OF assms(1), of hc] assms(5) by (auto simp add: pending_hConn_def)
  qed
  show "b < nextRef ?s' \<and> getKey (Some (object (heap ?s' b))) = Some k"
    if "(k, b) \<in> set (contextMap ?s')" for k b
    using that wf_ctx [OF assms(1), of k b] unfolding o by (simp add: lock_def updCtx_def)
  show "cl_c (call_cl c') < nextRef ?s' \<and>
        call_hConn c' = hConn (object (heap ?s' (cl_c (call_cl c'))))"
    if "MQGET c' \<in> set (inflight ?s')" for c'
  proof -
    have "MQGET c' \<in> set (inflight s) \<or> c' = call" using that by auto
    then show ?thesis
      using wf_call [OF assms(1), of c'] assms(2,4,5) unfolding o by auto
  qed
  show "cl_c cl < nextRef ?s'" if "(t, d, PollHObjInternal cl) \<in> set (timers ?s')" for t d cl
    using that wf_timer [OF assms(1), of t d cl] by (simp add: lock_def updCtx_def)
qed (use assms(1) in \<open>simp_all add: wellformed_def lock_def updCtx_def\<close>)

lemma wf_pollHObjInternal:
  assumes "wellformed s" and "cl_c cl < nextRef s"
  shows "wellformed (pollHObjInternal E now cl s)"
proof (cases "isLocked (hConn (object (heap s (cl_c cl)))) s")
  case True
  then show ?thesis
    using assms wf_setImmediate [of s "PollHObjInternal cl"]
    by (simp add: pollHObjInternal_def Let_def)
next
  case False
  let ?a = "cl_c cl"
  let ?hc = "hConn (object (heap s ?a))"
  have w: "wellformed ((updCtx ?a f (lock ?hc now s))\<lparr> inflight := inflight s @ [MQGET call] \<rparr>)"
    if "cl_c (call_cl call) = ?a" and "call_hConn call = ?hc" and "\<And>c. object (f c) = object c"
    for call f
    using wf_issue [OF assms(1,2) False that] .
  have i: "updCtx ?a (\<lambda>c. c) (lock ?hc now s) = lock ?hc now s"
    by (simp add: updCtx_def)
  show ?thesis
  proof (cases "case buf (heap s ?a) of None \<Rightarrow> True | Some n \<Rightarrow> n < bufSize (heap s ?a)")
    case True
    then show ?thesis
      using False w [of _ "\<lambda>c. c\<lparr> buf := Some (bufSize c) \<rparr>"]
      by (simp add: pollHObjInternal_def Let_def) (simp add: lock_def updCtx_def)
  next
    case b: False
    then show ?thesis
      using False w [of _ "\<lambda>c. c"] unfolding i
      by (simp add: pollHObjInternal_def Let_def) (simp add: lock_def)
  qed
qed

lemma wf_initGet:
  assumes "wellformed s" and "c < nextRef s"
  shows "wellformed (initGet E now c s)"
  using assms wf_pollHObjInternal
  by (auto simp add: initGet_def pollHObj_def split: option.splits)

lemma set_shuffle_loop: "i < length xs \<Longrightarrow> set (shuffle_loop i rs xs) = set xs"
proof (induction i arbitrary: rs xs)
  case 0
  then show ?case by simp
next
  case (Suc i)
  let ?j = "case rs of [] \<Rightarrow> 0 | r # _ \<Rightarrow> r mod Suc (Suc i)"
  have "r mod Suc (Suc i) < Suc (Suc i)" for r :: nat
    by simp
  then have "r mod Suc (Suc i) < length xs" for r :: nat
    using Suc.prems by (meson Suc_leI le_trans not_less)
  then have j: "?j < length xs"
    using Suc.prems by (cases rs) auto
  have "set (xs[Suc i := xs ! ?j, ?j := xs ! Suc i]) = set xs"
    using Suc.prems j by (simp add: set_swap)
  then show ?case using Suc by (simp add: Let_def)
qed

lemma set_shuffle: "set (shuffle rs xs) = set xs"
proof (cases xs)
  case Nil
  then show ?thesis by (simp add: shuffle_def)
next
  case (Cons x xs')
  then show ?thesis by (simp add: shuffle_def set_shuffle_loop)
qed

lemma wf_pollHobjs:
  assumes "wellformed s"
  shows "wellformed (pollHobjs E rnd now hc s)"
proof (cases "hc = - 1 \<or> messagesRetrievedInHConnPoll s > 0 \<or>
      length (getRunningContexts s (getAllContextsForPoll hc s)) = 0")
  case True
  then show ?thesis
    using assms wf_setTimeout [of "s\<lparr> scheduledGetLoop := True \<rparr>" "PollPerHconn hc"]
    by (auto simp add: pollHobjs_def Let_def)
next
  case False
  show ?thesis
  proof (cases "shuffle (rnd hc) (getRunningContexts s (getAllContextsForPoll hc s))")
    case Nil
    then show ?thesis using False assms by (simp add: pollHobjs_def Let_def)
  next
    case (Cons c list)
    then have "c \<in> set (shuffle (rnd hc) (getRunningContexts s (getAllContextsForPoll hc s)))"
      by simp
    then have "c \<in> snd ` set (contextMap s)"
      by (auto simp add: set_shuffle getRunningContexts_def getAllContextsForPoll_def)
    then have c: "c < nextRef s"
      using assms by (auto simp add: wellformed_def)
    let ?s1 = "updCtx c (\<lambda>c. c\<lparr> retrieved := 0 \<rparr>) (s\<lparr> scheduledGetLoop := False \<rparr>)"
    have "wellformed ?s1" using assms by (simp add: wf_updCtx)
    moreover have "c < nextRef ?s1" using c by (simp add: updCtx_def)
    ultimately have "wellformed (initGet E now c ?s1)" by (rule wf_initGet)
    then show ?thesis using False Cons by (simp add: pollHobjs_def Let_def)
  qed
qed

lemma wf_fold_updCtx:
  assumes "wellformed s" and "\<And>c. object (f c) = object c"
  shows "wellformed (fold (\<lambda>c. updCtx c f) cs s)"
  using assms(1) by (induction cs arbitrary: s) (simp_all add: wf_updCtx assms(2))

lemma wf_pollPerHconn:
  assumes "wellformed s"
  shows "wellformed (pollPerHconn E rnd now hc s)"
  using assms
  by (simp add: pollPerHconn_def Let_def wf_pollHobjs wf_fold_updCtx)

lemma wf_fold_poll:
  assumes "wellformed s"
  shows "wellformed (fold (\<lambda>hc s.
            if hc \<noteq> - 1 then
              pollPerHconn E rnd now hc (s\<lparr> hConnsInPoll := setAdd hc (hConnsInPoll s) \<rparr>)
            else s\<lparr> hConnsInPoll := removeAll hc (hConnsInPoll s) \<rparr>) hcs s)"
  using assms by (induction hcs arbitrary: s) (simp_all add: wf_pollPerHconn)

lemma wf_pollAllHConns:
  assumes "wellformed s"
  shows "wellformed (pollAllHConns E rnd now s)"
  using assms wf_fold_poll [OF assms]
  by (simp add: pollAllHConns_def Let_def wf_resetGetLoop)

lemma set_dropAt: "set (dropAt i xs) \<subseteq> set xs"
  by (auto simp add: dropAt_def dest: in_set_takeD in_set_dropD)

lemma distinct_map_dropAt: "distinct (map f xs) \<Longrightarrow> distinct (map f (dropAt i xs))"
proof -
  assume d: "distinct (map f xs)"
  have "map f xs = map f (take i xs) @ map f (drop i xs)"
    by (metis append_take_drop_id map_append)
  then have "distinct (map f (take i xs) @ map f (drop i xs))" using d by simp
  moreover have "set (map f (drop (Suc i) xs)) \<subseteq> set (map f (drop i xs))"
    by (metis drop_map set_drop_subset_set_drop Suc_n_not_le_n nat_le_linear)
  moreover have "distinct (map f (drop (Suc i) xs))"
    using d by (metis distinct_drop drop_map)
  ultimately show ?thesis
    by (auto simp add: dropAt_def)
qed

lemma dropAt_misses:
  assumes "distinct (map f xs)" and "i < length xs"
  shows "f (xs ! i) \<notin> f ` set (dropAt i xs)"
proof -
  have x: "xs = take i xs @ xs ! i # drop (Suc i) xs"
    using assms(2) by (simp add: id_take_nth_drop)
  have "distinct (map f (take i xs @ xs ! i # drop (Suc i) xs))"
    using assms(1) x by simp
  then show ?thesis
    by (auto simp add: dropAt_def)
qed

lemma wf_drop_timers:
  assumes "wellformed s"
  shows "wellformed (s\<lparr> timers := dropAt i (timers s) \<rparr>)"
proof (rule wfI)
  fix t d cl
  assume "(t, d, PollHObjInternal cl) \<in> set (timers (s\<lparr> timers := dropAt i (timers s) \<rparr>))"
  then have "(t, d, PollHObjInternal cl) \<in> set (timers s)"
    using set_dropAt [of i "timers s"] by auto
  then show "cl_c cl < nextRef (s\<lparr> timers := dropAt i (timers s) \<rparr>)"
    using wf_timer [OF assms] by simp
next
  let ?s' = "s\<lparr> timers := dropAt i (timers s) \<rparr>"
  show "b < nextRef ?s' \<and> getKey (Some (object (heap ?s' b))) = Some k"
    if "(k, b) \<in> set (contextMap ?s')" for k b
    using that wf_ctx [OF assms, of k b] by simp
  show "cl_c (call_cl call) < nextRef ?s' \<and>
        call_hConn call = hConn (object (heap ?s' (cl_c (call_cl call))))"
    if "MQGET call \<in> set (inflight ?s')" for call
    using that wf_call [OF assms, of call] by simp
  show "isLocked hc ?s' \<longleftrightarrow> hc \<in> pending_hConn ` set (inflight ?s')" for hc
    using wf_locked [OF assms, of hc] by (simp add: isLocked_def)
qed (use assms in \<open>simp_all add: wellformed_def\<close>)

lemma in_dropAt: "x \<in> set xs \<Longrightarrow> x \<noteq> xs ! i \<Longrightarrow> x \<in> set (dropAt i xs)"
proof -
  assume x: "x \<in> set xs" and n: "x \<noteq> xs ! i"
  show ?thesis
  proof (cases "i < length xs")
    case True
    then have "xs = take i xs @ xs ! i # drop (Suc i) xs"
      by (simp add: id_take_nth_drop)
    then have "x \<in> set (take i xs @ xs ! i # drop (Suc i) xs)" using x by simp
    then show ?thesis using n by (auto simp add: dropAt_def)
  next
    case False
    then show ?thesis using x by (simp add: dropAt_def)
  qed
qed

lemma wf_release:
  assumes "wellformed s" and "i < length (inflight s)"
  shows "wellformed (unlock (pending_hConn (inflight s ! i))
           (s\<lparr> inflight := dropAt i (inflight s) \<rparr>))"
proof (rule wfI)
  let ?hc = "pending_hConn (inflight s ! i)"
  let ?s' = "unlock ?hc (s\<lparr> inflight := dropAt i (inflight s) \<rparr>)"
  have d: "distinct (map pending_hConn (inflight s))"
    using assms(1) by (simp add: wellformed_def)
  have sub: "set (inflight ?s') \<subseteq> set (inflight s)"
    using set_dropAt [of i "inflight s"] by (simp add: unlock_def)
  show "distinct (map pending_hConn (inflight ?s'))"
    using distinct_map_dropAt [OF d] by (simp add: unlock_def)
  show "isLocked hc ?s' \<longleftrightarrow> hc \<in> pending_hConn ` set (inflight ?s')" for hc
  proof
    assume "isLocked hc ?s'"
    then have n: "hc \<noteq> ?hc" and "isLocked hc s"
      by (simp_all add: isLocked_unlock) (simp_all add: isLocked_def)
    then obtain p where p: "p \<in> set (inflight s)" "pending_hConn p = hc"
      using wf_locked [OF assms(1)] by auto
    then have "p \<noteq> inflight s ! i" using n by auto
    then have "p \<in> set (dropAt i (inflight s))" using p(1) by (rule in_dropAt [rotated])
    then show "hc \<in> pending_hConn ` set (inflight ?s')"
      using p(2) by (auto simp add: unlock_def)
  next
    assume m: "hc \<in> pending_hConn ` set (inflight ?s')"
    then have "hc \<in> pending_hConn ` set (dropAt i (inflight s))" by (simp add: unlock_def)
    then have "hc \<noteq> ?hc"
      using dropAt_misses [OF d assms(2)] by (metis)
    moreover have "isLocked hc s"
      using m sub wf_locked [OF assms(1)] by auto
    ultimately show "isLocked hc ?s'"
      by (simp add: isLocked_unlock) (simp add: isLocked_def)
  qed
  show "cl_c (call_cl call) < nextRef ?s' \<and>
        call_hConn call = hConn (object (heap ?s' (cl_c (call_cl call))))"
    if "MQGET call \<in> set (inflight ?s')" for call
  proof -
    have "MQGET call \<in> set (inflight s)" using that sub by auto
    then show ?thesis using wf_call [OF assms(1)] by (simp add: unlock_def)
  qed
next
  let ?s' = "unlock (pending_hConn (inflight s ! i)) (s\<lparr> inflight := dropAt i (inflight s) \<rparr>)"
  show "b < nextRef ?s' \<and> getKey (Some (object (heap ?s' b))) = Some k"
    if "(k, b) \<in> set (contextMap ?s')" for k b
    using that wf_ctx [OF assms(1), of k b] by (simp add: unlock_def)
  show "cl_c cl < nextRef ?s'" if "(t, d, PollHObjInternal cl) \<in> set (timers ?s')" for t d cl
    using that wf_timer [OF assms(1), of t d cl] by (simp add: unlock_def)
qed (use assms(1) in \<open>simp_all add: wellformed_def unlock_def\<close>)

lemma wf_callback:
  assumes "wellformed s" and "i < length (inflight s)" and "inflight s ! i = MQGET call"
  shows "wellformed (MQGET_callback E rnd now ed call out (s\<lparr> inflight := dropAt i (inflight s) \<rparr>))"
proof -
  let ?a = "cl_c (call_cl call)"
  let ?s0 = "s\<lparr> inflight := dropAt i (inflight s) \<rparr>"
  let ?hc = "hConn (object (heap ?s0 ?a))"
  have m: "MQGET call \<in> set (inflight s)"
    using assms(2,3) by (metis nth_mem)
  then have a: "?a < nextRef s" and h: "call_hConn call = hConn (object (heap s ?a))"
    using assms(1) by (auto simp add: wellformed_def)
  have "pending_hConn (inflight s ! i) = ?hc"
    using assms(3) h by (simp add: pending_hConn_def)
  then have w: "wellformed (unlock ?hc ?s0)"
    using wf_release [OF assms(1,2)] by simp
  have n: "?a < nextRef (unlock ?hc ?s0)"
    using a by simp
  show ?thesis
    unfolding MQGET_callback_def Let_def
    using w n
    by (auto intro!: wf_setTimeout wf_updCtx wf_pollHobjs wf_deleteUserContext wf_invoke
        split: option.splits)
qed

lemma update_snd_set: "snd ` set (AList.update k v al) \<subseteq> insert v (snd ` set al)"
  by (induction al) auto

lemma update_set: "set (AList.update k v al) \<subseteq> insert (k, v) (set al)"
  by (induction al) auto

lemma distinct_snd_update:
  "distinct (map snd al) \<Longrightarrow> v \<notin> snd ` set al \<Longrightarrow> distinct (map snd (AList.update k v al))"
proof (induction al)
  case Nil
  then show ?case by simp
next
  case (Cons p al)
  then show ?case
    using update_snd_set [of k v al] by (cases p) (auto simp add: image_iff)
qed

lemma wf_Get:
  assumes "wellformed s"
  shows "wellformed (Get ob md gmo f now s)"
proof -
  obtain key where k: "getKey (Some ob) = Some key" by (simp add: getKey_def)
  let ?c = "nextRef s"
  let ?s1 = "s\<lparr> heap := (heap s)(?c := UserContext_new ob f now), nextRef := Suc ?c,
                 contextMap := AList.update key ?c (contextMap s) \<rparr>"
  have fresh: "?c \<notin> snd ` set (contextMap s)"
    using assms by (auto simp add: wellformed_def)
  have w1: "wellformed ?s1"
    unfolding wellformed_def
  proof (intro conjI)
    show "distinct (map fst (contextMap ?s1))"
      using assms by (simp add: wellformed_def distinct_update)
    show "distinct (map snd (contextMap ?s1))"
      using assms fresh by (simp add: wellformed_def distinct_snd_update)
    show "\<forall>(k, a) \<in> set (contextMap ?s1).
          a < nextRef ?s1 \<and> getKey (Some (object (heap ?s1 a))) = Some k"
    proof (clarify)
      fix k' a assume "(k', a) \<in> set (contextMap ?s1)"
      then have "(k', a) = (key, ?c) \<or> (k', a) \<in> set (contextMap s)"
        using update_set [of key ?c "contextMap s"] by auto
      then show "a < nextRef ?s1 \<and> getKey (Some (object (heap ?s1 a))) = Some k'"
      proof
        assume "(k', a) = (key, ?c)"
        then show ?thesis using k by (simp add: UserContext_new_def)
      next
        assume m: "(k', a) \<in> set (contextMap s)"
        then have "a < ?c" using wf_ctx [OF assms m] by simp
        then show ?thesis using wf_ctx [OF assms m] by simp
      qed
    qed
    show "\<forall>(t, d, k) \<in> set (timers ?s1). \<forall>cl. k = PollHObjInternal cl \<longrightarrow> cl_c cl < nextRef ?s1"
      using assms by (auto simp add: wellformed_def)
    show "\<forall>p \<in> set (inflight ?s1). \<forall>call. p = MQGET call \<longrightarrow>
          cl_c (call_cl call) < nextRef ?s1 \<and>
          call_hConn call = hConn (object (heap ?s1 (cl_c (call_cl call))))"
      using assms by (auto simp add: wellformed_def)
    show "distinct (map pending_hConn (inflight ?s1))"
      using assms by (simp add: wellformed_def)
    show "\<forall>hc. isLocked hc ?s1 \<longleftrightarrow> hc \<in> pending_hConn ` set (inflight ?s1)"
      using assms by (simp add: wellformed_def isLocked_def)
  qed
  have e: "setUserContext ob f now s = (?c, ?s1)"
    using k by (simp add: setUserContext_def Let_def)
  let ?s2 = "updCtx ?c (\<lambda>c. c\<lparr> jsgmo := Some gmo, jsmd := Some md,
                  WaitInterval := GmoWaitInterval gmo \<rparr>) ?s1"
  let ?s3 = "if jsLess (getLoopPollTimeMs (tuningParameters ?s2)) getLoopPollTimeMsMin then
                  ?s2\<lparr> tuningParameters :=
                       (tuningParameters ?s2)\<lparr> getLoopPollTimeMs := getLoopPollTimeMsMin \<rparr> \<rparr>
                else ?s2"
  have w2: "wellformed ?s2" using w1 by (simp add: wf_updCtx)
  then have w3: "wellformed ?s3" by simp
  have w4: "wellformed (snd (setTimeout PollAllHConns (Num 0) (?s3\<lparr> scheduledGetLoop := True \<rparr>)))"
    by (rule wf_setTimeout) (use w3 in simp_all)
  have g: "Get ob md gmo f now s =
      (if \<not> scheduledGetLoop ?s3 \<or> getLoop ?s3 = None then
         (snd (setTimeout PollAllHConns (Num 0) (?s3\<lparr> scheduledGetLoop := True \<rparr>)))
           \<lparr> getLoop := Some (fst (setTimeout PollAllHConns (Num 0) (?s3\<lparr> scheduledGetLoop := True \<rparr>))) \<rparr>
       else ?s3)"
    unfolding Get_def e Let_def by (simp add: split_def)
  show ?thesis
    unfolding g using w3 w4 by (simp del: wf_fields(1) add: wf_fields(2))
qed

lemma wf_GetDone:
  assumes "wellformed s" and "GetDone E ob f s = Inr s'"
  shows "wellformed s'"
  using assms
  by (auto simp add: GetDone_def Let_def wf_deleteUserContext wf_resetGetLoop wf_invoke
      split: option.splits if_splits)

lemma wf_verbInternal:
  assumes "wellformed s"
  shows "wellformed (verbInternal hc now s)"
proof (cases "isLocked hc s")
  case True
  then show ?thesis using assms by (simp add: verbInternal_def)
next
  case False
  let ?s' = "(lock hc now s)\<lparr> inflight := inflight (lock hc now s) @ [MQVERB hc] \<rparr>"
  have n: "hc \<notin> pending_hConn ` set (inflight s)"
    using False wf_locked [OF assms] by simp
  have "wellformed ?s'"
  proof (rule wfI)
    show "distinct (map pending_hConn (inflight ?s'))"
      using assms n by (simp add: wellformed_def pending_hConn_def lock_def)
    show "isLocked h ?s' \<longleftrightarrow> h \<in> pending_hConn ` set (inflight ?s')" for h
    proof -
      have "isLocked h ?s' \<longleftrightarrow> h = hc \<or> isLocked h s"
        by (simp add: isLocked_def lock_def update_conv')
      then show ?thesis
        using wf_locked [OF assms, of h] by (auto simp add: pending_hConn_def lock_def)
    qed
    show "b < nextRef ?s' \<and> getKey (Some (object (heap ?s' b))) = Some k"
      if "(k, b) \<in> set (contextMap ?s')" for k b
      using that wf_ctx [OF assms, of k b] by (simp add: lock_def)
    show "cl_c (call_cl c') < nextRef ?s' \<and>
          call_hConn c' = hConn (object (heap ?s' (cl_c (call_cl c'))))"
      if "MQGET c' \<in> set (inflight ?s')" for c'
      using that wf_call [OF assms, of c'] by (simp add: lock_def)
    show "cl_c cl < nextRef ?s'" if "(t, d, PollHObjInternal cl) \<in> set (timers ?s')" for t d cl
      using that wf_timer [OF assms, of t d cl] by (simp add: lock_def)
  qed (use assms in \<open>simp_all add: wellformed_def lock_def\<close>)
  then show ?thesis using False by (simp add: verbInternal_def)
qed

lemma wf_step:
  assumes "wellformed s"
  shows "wellformed (step E rnd now ev s)"
proof (cases ev)
  case (ApiGet ob md gmo f)
  then show ?thesis using assms by (simp add: step_def wf_Get)
next
  case (ApiGetDone ob f)
  then show ?thesis using assms wf_GetDone [OF assms]
    by (auto simp add: step_def split: sum.splits)
next
  case (Fire i)
  show ?thesis
  proof (cases "i < length (timers s)")
    case True
    let ?s0 = "s\<lparr> timers := dropAt i (timers s) \<rparr>"
    have w: "wellformed ?s0" using assms by (rule wf_drop_timers)
    have c: "snd (snd (timers s ! i)) = PollHObjInternal cl \<Longrightarrow> cl_c cl < nextRef ?s0" for cl
    proof -
      assume p: "snd (snd (timers s ! i)) = PollHObjInternal cl"
      obtain t d where "timers s ! i = (t, d, PollHObjInternal cl)"
        using p by (cases "timers s ! i") auto
      then have "(t, d, PollHObjInternal cl) \<in> set (timers s)"
        using True by (metis nth_mem)
      then show ?thesis
        using wf_timer [OF assms] by simp
    qed
    show ?thesis
      using True Fire w c
      by (cases "snd (snd (timers s ! i))")
        (simp_all add: step_def runTask_def wf_pollAllHConns wf_pollPerHconn wf_pollHObjInternal)
  next
    case False
    then show ?thesis using Fire assms by (simp add: step_def)
  qed
next
  case (Complete i out ed)
  then show ?thesis
    using assms wf_callback [OF assms]
    by (auto simp add: step_def split: pending.splits)
next
  case (VerbStart hc)
  then show ?thesis using assms by (simp add: step_def wf_verbInternal)
next
  case (VerbDone i)
  show ?thesis
  proof (cases "i < length (inflight s)")
    case True
    show ?thesis
    proof (cases "inflight s ! i")
      case (MQGET call)
      then show ?thesis using VerbDone True assms by (simp add: step_def)
    next
      case (MQVERB hc)
      then have "pending_hConn (inflight s ! i) = hc" by (simp add: pending_hConn_def)
      then show ?thesis
        using VerbDone True MQVERB wf_release [OF assms True] by (simp add: step_def)
    qed
  next
    case False
    then show ?thesis using VerbDone assms by (simp add: step_def)
  qed
next
  case (SetTuning m p d)
  then show ?thesis using assms by (simp add: step_def)
qed

lemma wf_init: "wellformed init"
  by (simp add: wellformed_def init_def isLocked_def)

lemma reachable_wellformed: "reachable E s \<Longrightarrow> wellformed s"
  by (induction rule: reachable.induct) (simp_all add: wf_init wf_step)

subsection \<open>Registry keys\<close>

lemma digit_char_code: "d < 10 \<Longrightarrow> (of_char (digit_char d) :: nat) = 48 + d"
  by (simp add: digit_char_def)

lemma digit_char_inj:
  assumes "a < 10" and "b < 10" and "digit_char a = digit_char b"
  shows "a = b"
proof -
  have "(of_char (digit_char a) :: nat) = of_char (digit_char b)"
    by (simp only: assms(3))
  then have "48 + a = 48 + b"
    by (simp only: digit_char_code [OF assms(1)] digit_char_code [OF assms(2)])
  then show ?thesis by simp
qed

lemma digit_char_plain:
  assumes "d < 10"
  shows "digit_char d \<noteq> CHR ''/''" and "digit_char d \<noteq> CHR ''-''"
proof -
  show "digit_char d \<noteq> CHR ''/''"
  proof
    assume "digit_char d = CHR ''/''"
    then have "(of_char (digit_char d) :: nat) = of_char (CHR ''/'')" by simp
    then show False using digit_char_code [OF assms] by simp
  qed
  show "digit_char d \<noteq> CHR ''-''"
  proof
    assume "digit_char d = CHR ''-''"
    then have "(of_char (digit_char d) :: nat) = of_char (CHR ''-'')" by simp
    then show False using digit_char_code [OF assms] by simp
  qed
qed

lemma digits_nonempty: "digits n \<noteq> []"
  by (subst digits.simps) simp

lemma digits_plain: "CHR ''/'' \<notin> set (digits n) \<and> CHR ''-'' \<notin> set (digits n)"
proof (induction n rule: digits.induct)
  case (1 n)
  show ?case
  proof (cases "n < 10")
    case True
    then show ?thesis
      using digit_char_plain [of n] by (subst digits.simps, subst (2) digits.simps) auto
  next
    case False
    have "n mod 10 < 10" by simp
    then show ?thesis
      using False 1 digit_char_plain [of "n mod 10"]
      by (subst digits.simps, subst (2) digits.simps) auto
  qed
qed

lemma digits_inj: "digits n = digits m \<Longrightarrow> n = m"
proof (induction n arbitrary: m rule: digits.induct)
  case (1 n)
  show ?case
  proof (cases "n < 10")
    case n: True
    show ?thesis
    proof (cases "m < 10")
      case True
      then show ?thesis
        using n "1.prems" digit_char_inj [of n m]
        by (simp add: digits.simps [of n] digits.simps [of m])
    next
      case False
      then have "length (digits m) \<ge> 2"
        using digits_nonempty [of "m div 10"]
        by (simp add: digits.simps [of m]) (metis Suc_leI length_greater_0_conv)
      moreover have "length (digits n) = 1" using n by (simp add: digits.simps [of n])
      ultimately show ?thesis using "1.prems" by simp
    qed
  next
    case n: False
    show ?thesis
    proof (cases "m < 10")
      case True
      have "length (digits n) \<ge> 2"
        using n digits_nonempty [of "n div 10"]
        by (simp add: digits.simps [of n]) (metis Suc_leI length_greater_0_conv)
      moreover have "length (digits m) = 1" using True by (simp add: digits.simps [of m])
      ultimately show ?thesis using "1.prems" by simp
    next
      case False
      have e: "digits (n div 10) @ [digit_char (n mod 10)] =
               digits (m div 10) @ [digit_char (m mod 10)]"
        using n False "1.prems" by (simp add: digits.simps [of n] digits.simps [of m])
      then have "digits (n div 10) = digits (m div 10)"
        and d: "digit_char (n mod 10) = digit_char (m mod 10)" by simp_all
      then have "n div 10 = m div 10" using "1.IH" [OF n] by simp
      moreover have "n mod 10 = m mod 10"
        using d digit_char_inj [of "n mod 10" "m mod 10"] by simp
      ultimately show ?thesis by (metis div_mult_mod_eq)
    qed
  qed
qed

lemma num_str_plain: "CHR ''/'' \<notin> set (num_str i)"
  using digits_plain by (simp add: num_str_def)

lemma num_str_inj: "num_str i = num_str j \<Longrightarrow> i = j"
proof -
  assume e: "num_str i = num_str j"
  have h: "hd (digits n) \<noteq> CHR ''-''" for n
    using digits_plain [of n] digits_nonempty [of n] by (cases "digits n") auto
  show "i = j"
  proof (cases "i < 0")
    case i: True
    show ?thesis
    proof (cases "j < 0")
      case True
      then have "digits (nat (- i)) = digits (nat (- j))" using i e by (simp add: num_str_def)
      then have "nat (- i) = nat (- j)" by (rule digits_inj)
      then show ?thesis using i True by simp
    next
      case False
      then have "CHR ''-'' # digits (nat (- i)) = digits (nat j)" using i e by (simp add: num_str_def)
      then show ?thesis using h [of "nat j"] by (metis list.sel(1))
    qed
  next
    case i: False
    show ?thesis
    proof (cases "j < 0")
      case True
      then have "CHR ''-'' # digits (nat (- j)) = digits (nat i)" using i e by (simp add: num_str_def)
      then show ?thesis using h [of "nat i"] by (metis list.sel(1))
    next
      case False
      then have "digits (nat i) = digits (nat j)" using i e by (simp add: num_str_def)
      then have "nat i = nat j" by (rule digits_inj)
      then show ?thesis using i False by simp
    qed
  qed
qed

lemma split_at_mark:
  "c \<notin> set xs \<Longrightarrow> c \<notin> set xs' \<Longrightarrow> xs @ c # ys = xs' @ c # ys' \<Longrightarrow> xs = xs' \<and> ys = ys'"
proof (induction xs arbitrary: xs')
  case Nil
  then show ?case by (cases xs') auto
next
  case (Cons x xs)
  then show ?case by (cases xs') auto
qed

lemma getKey_inj:
  "getKey (Some ob) = getKey (Some ob') \<longleftrightarrow> hConn ob = hConn ob' \<and> hObj ob = hObj ob'"
proof
  assume "getKey (Some ob) = getKey (Some ob')"
  then have "num_str (hConn ob) @ CHR ''/'' # num_str (hObj ob) =
             num_str (hConn ob') @ CHR ''/'' # num_str (hObj ob')"
    by (simp add: getKey_def)
  then have "num_str (hConn ob) = num_str (hConn ob') \<and> num_str (hObj ob) = num_str (hObj ob')"
    by (rule split_at_mark [OF num_str_plain num_str_plain])
  then show "hConn ob = hConn ob' \<and> hObj ob = hObj ob'"
    using num_str_inj by blast
next
  assume "hConn ob = hConn ob' \<and> hObj ob = hObj ob'"
  then show "getKey (Some ob) = getKey (Some ob')" by (simp add: getKey_def)
qed

subsection \<open>The gate\<close>

lemma reachable_run: "reachable E s \<Longrightarrow> reachable E (run E evs s)"
proof (induction evs arbitrary: s)
  case Nil
  then show ?case by simp
next
  case (Cons ev evs)
  obtain rnd now e where ev: "ev = (rnd, now, e)" by (cases ev)
  have "reachable E (step E rnd now e s)" using Cons.prems by (rule reach_step)
  then show ?case using Cons.IH ev by simp
qed

text \<open>
  C1. In every state the module can reach, no two transport calls in flight are on the same
  connection handle, and the gate of a connection (\<open>hConnsInUse\<close>) is held exactly when
  a call on that connection is in flight; the MQGET in flight for a context is on the
  connection of that context. An attempt, \<open>pollHObjInternal\<close>, that finds the gate of its
  connection held issues nothing and schedules itself again with \<^verbatim>\<open>setImmediate\<close>; one
  that finds it free takes the gate and issues the MQGET. The completion of an MQGET, whose
  callback gives the gate back before anything else, leads to a state of the same kind.
\<close>

theorem one_call_in_flight_per_connection:
  assumes "reachable E s"
  shows "distinct (map pending_hConn (inflight s)) \<and>
     (\<forall>hc. isLocked hc s \<longleftrightarrow> hc \<in> pending_hConn ` set (inflight s)) \<and>
     (\<forall>call. MQGET call \<in> set (inflight s) \<longrightarrow>
        call_hConn call = hConn (object (heap s (cl_c (call_cl call))))) \<and>
     (\<forall>cl now.
        (isLocked (hConn (object (heap s (cl_c cl)))) s \<longrightarrow>
           inflight (pollHObjInternal E now cl s) = inflight s \<and>
           hConnsInUse (pollHObjInternal E now cl s) = hConnsInUse s \<and>
           timers (pollHObjInternal E now cl s) =
             timers s @ [(nextTimer s, Immediate, PollHObjInternal cl)]) \<and>
        (\<not> isLocked (hConn (object (heap s (cl_c cl)))) s \<longrightarrow>
           isLocked (hConn (object (heap s (cl_c cl)))) (pollHObjInternal E now cl s) \<and>
           timers (pollHObjInternal E now cl s) = timers s \<and>
           (\<exists>c'. inflight (pollHObjInternal E now cl s) = inflight s @ [MQGET c'] \<and>
                 call_cl c' = cl \<and> call_hConn c' = hConn (object (heap s (cl_c cl)))))) \<and>
     (\<forall>i call out ed rnd now. i < length (inflight s) \<and> inflight s ! i = MQGET call \<longrightarrow>
        (let s' = step E rnd now (Complete i out ed) s
         in distinct (map pending_hConn (inflight s')) \<and>
            (\<forall>hc. isLocked hc s' \<longleftrightarrow> hc \<in> pending_hConn ` set (inflight s'))))"
proof -
  have w: "wellformed s" using assms by (rule reachable_wellformed)
  have 1: "distinct (map pending_hConn (inflight s))"
    using w by (simp add: wellformed_def)
  have 2: "\<forall>hc. isLocked hc s \<longleftrightarrow> hc \<in> pending_hConn ` set (inflight s)"
    using wf_locked [OF w] by blast
  have 3: "\<forall>call. MQGET call \<in> set (inflight s) \<longrightarrow>
        call_hConn call = hConn (object (heap s (cl_c (call_cl call))))"
    using wf_call [OF w] by blast
  have 4: "\<forall>cl now.
        (isLocked (hConn (object (heap s (cl_c cl)))) s \<longrightarrow>
           inflight (pollHObjInternal E now cl s) = inflight s \<and>
           hConnsInUse (pollHObjInternal E now cl s) = hConnsInUse s \<and>
           timers (pollHObjInternal E now cl s) =
             timers s @ [(nextTimer s, Immediate, PollHObjInternal cl)]) \<and>
        (\<not> isLocked (hConn (object (heap s (cl_c cl)))) s \<longrightarrow>
           isLocked (hConn (object (heap s (cl_c cl)))) (pollHObjInternal E now cl s) \<and>
           timers (pollHObjInternal E now cl s) = timers s \<and>
           (\<exists>c'. inflight (pollHObjInternal E now cl s) = inflight s @ [MQGET c'] \<and>
                 call_cl c' = cl \<and> call_hConn c' = hConn (object (heap s (cl_c cl)))))"
    by (simp add: pollHObjInternal_def Let_def setImmediate_def lock_def updCtx_def
        isLocked_def update_conv')
  have 5: "\<forall>i call out ed rnd now. i < length (inflight s) \<and> inflight s ! i = MQGET call \<longrightarrow>
        (let s' = step E rnd now (Complete i out ed) s
         in distinct (map pending_hConn (inflight s')) \<and>
            (\<forall>hc. isLocked hc s' \<longleftrightarrow> hc \<in> pending_hConn ` set (inflight s')))"
  proof (intro allI impI)
    fix i call out ed rnd now
    have "reachable E (step E rnd now (Complete i out ed) s)"
      using assms by (rule reach_step)
    then have w': "wellformed (step E rnd now (Complete i out ed) s)"
      by (rule reachable_wellformed)
    show "let s' = step E rnd now (Complete i out ed) s
         in distinct (map pending_hConn (inflight s')) \<and>
            (\<forall>hc. isLocked hc s' \<longleftrightarrow> hc \<in> pending_hConn ` set (inflight s'))"
      unfolding Let_def using w' wf_locked [OF w'] by (simp add: wellformed_def)
  qed
  show ?thesis using 1 2 3 4 5 by (intro conjI)
qed

lemma twoConns_eval:
  "map pending_hConn (inflight twoConns) = [1, 2] \<and> map fst (hConnsInUse twoConns) = [1, 2]"
  by code_simp

theorem one_call_in_flight_per_connection_witness:
  "reachable ibmDefs twoConns \<and> map pending_hConn (inflight twoConns) = [1, 2] \<and>
   distinct (map pending_hConn (inflight twoConns)) \<and>
   isLocked 1 twoConns \<and> isLocked 2 twoConns \<and> \<not> isLocked 3 twoConns"
proof -
  have r: "reachable ibmDefs twoConns"
    unfolding twoConns_def by (rule reachable_run) (rule reach_init)
  note th = one_call_in_flight_per_connection [OF r]
  have d: "distinct (map pending_hConn (inflight twoConns))"
    using th [THEN conjunct1] .
  have l: "isLocked hc twoConns \<longleftrightarrow> hc \<in> pending_hConn ` set (inflight twoConns)" for hc
    using th [THEN conjunct2, THEN conjunct1] by blast
  have e: "pending_hConn ` set (inflight twoConns) = {1, 2}"
    using twoConns_eval by (metis list.set(1) list.set(2) set_map)
  show ?thesis
    using r d l e twoConns_eval by simp
qed

subsection \<open>One context per key\<close>

lemma Get_registry:
  "contextMap (Get ob md gmo f now s) =
     AList.update (num_str (hConn ob) @ ''/'' @ num_str (hObj ob)) (nextRef s) (contextMap s) \<and>
   heap (Get ob md gmo f now s) (nextRef s) =
     (UserContext_new ob f now)\<lparr> jsgmo := Some gmo, jsmd := Some md,
        WaitInterval := GmoWaitInterval gmo \<rparr> \<and>
   (\<forall>x. x \<noteq> nextRef s \<longrightarrow> heap (Get ob md gmo f now s) x = heap s x)"
  by (simp add: Get_def setUserContext_def getKey_def Let_def updCtx_def setTimeout_def
      split_def)

lemma length_alist_update:
  "length (AList.update k v al) =
     (if k \<in> fst ` set al then length al else Suc (length al))"
  by (induction al) auto

lemma update_drops_old:
  "distinct (map snd al) \<Longrightarrow> map_of al k = Some old \<Longrightarrow> v \<noteq> old \<Longrightarrow>
   old \<notin> snd ` set (AList.update k v al)"
proof (induction al)
  case Nil
  then show ?case by simp
next
  case (Cons p al)
  obtain k' v' where p: "p = (k', v')" by (cases p)
  show ?case
  proof (cases "k' = k")
    case True
    then have "v' = old" using Cons.prems(2) p by simp
    then have "old \<notin> snd ` set al" using Cons.prems(1) p by (auto simp add: image_iff)
    then show ?thesis using True p Cons.prems(3) by auto
  next
    case False
    then have m: "map_of al k = Some old" using Cons.prems(2) p by simp
    then have "old \<in> snd ` set al" by (metis map_of_SomeD image_eqI snd_conv)
    then have "v' \<noteq> old" using Cons.prems(1) p by (auto simp add: image_iff)
    moreover have "old \<notin> snd ` set (AList.update k v al)"
      using Cons.IH Cons.prems(1,3) m by simp
    ultimately show ?thesis using False p by auto
  qed
qed

text \<open>
  In every state the module can reach, the keys of the registry are pairwise distinct,
  and two entries of the registry never belong to objects with the same pair of connection
  handle and object handle. \<^verbatim>\<open>Get\<close> stores a new context under the key of its object:
  that context has the handler, the options and the descriptor of this call. If the key had
  a context, the registry keeps its size and the previous context is no longer in it;
  otherwise the registry grows by one. Lookups for objects with another pair of handles are
  not affected.
\<close>

lemma registry_one_context_per_key:
  assumes "reachable E s"
  shows "distinct (map fst (contextMap s)) \<and>
     (\<forall>i j. i < length (contextMap s) \<and> j < length (contextMap s) \<and> i \<noteq> j \<longrightarrow>
        (hConn (object (heap s (snd (contextMap s ! i)))),
         hObj (object (heap s (snd (contextMap s ! i))))) \<noteq>
        (hConn (object (heap s (snd (contextMap s ! j)))),
         hObj (object (heap s (snd (contextMap s ! j)))))) \<and>
     (\<forall>ob md gmo f now.
        (let s' = Get ob md gmo f now s; c = nextRef s
         in getUserContext (Some ob) s' = Some c \<and>
            cb (heap s' c) = f \<and> jsgmo (heap s' c) = Some gmo \<and> jsmd (heap s' c) = Some md \<and>
            WaitInterval (heap s' c) = GmoWaitInterval gmo \<and> object (heap s' c) = ob \<and>
            distinct (map fst (contextMap s')) \<and>
            (\<forall>old. getUserContext (Some ob) s = Some old \<longrightarrow>
               length (contextMap s') = length (contextMap s) \<and>
               old \<notin> snd ` set (contextMap s')) \<and>
            (getUserContext (Some ob) s = None \<longrightarrow>
               length (contextMap s') = Suc (length (contextMap s))) \<and>
            (\<forall>ob'. (hConn ob', hObj ob') \<noteq> (hConn ob, hObj ob) \<longrightarrow>
               getUserContext (Some ob') s' = getUserContext (Some ob') s)))"
proof -
  have w: "wellformed s" using assms by (rule reachable_wellformed)
  have d: "distinct (map fst (contextMap s))" and d2: "distinct (map snd (contextMap s))"
    using w by (simp_all add: wellformed_def)
  have 2: "\<forall>i j. i < length (contextMap s) \<and> j < length (contextMap s) \<and> i \<noteq> j \<longrightarrow>
        (hConn (object (heap s (snd (contextMap s ! i)))),
         hObj (object (heap s (snd (contextMap s ! i))))) \<noteq>
        (hConn (object (heap s (snd (contextMap s ! j)))),
         hObj (object (heap s (snd (contextMap s ! j)))))"
  proof (intro allI impI notI)
    fix i j
    assume ij: "i < length (contextMap s) \<and> j < length (contextMap s) \<and> i \<noteq> j"
    assume e: "(hConn (object (heap s (snd (contextMap s ! i)))),
         hObj (object (heap s (snd (contextMap s ! i))))) =
        (hConn (object (heap s (snd (contextMap s ! j)))),
         hObj (object (heap s (snd (contextMap s ! j)))))"
    have mi: "(fst (contextMap s ! i), snd (contextMap s ! i)) \<in> set (contextMap s)"
      and mj: "(fst (contextMap s ! j), snd (contextMap s ! j)) \<in> set (contextMap s)"
      using ij by simp_all
    have "getKey (Some (object (heap s (snd (contextMap s ! i))))) =
          getKey (Some (object (heap s (snd (contextMap s ! j)))))"
      using e by (simp add: getKey_inj)
    then have "fst (contextMap s ! i) = fst (contextMap s ! j)"
      using wf_ctx [OF w mi] wf_ctx [OF w mj] by simp
    then have "map fst (contextMap s) ! i = map fst (contextMap s) ! j"
      using ij by simp
    moreover have "i < length (map fst (contextMap s))" "j < length (map fst (contextMap s))"
      using ij by simp_all
    ultimately have "i = j"
      using d nth_eq_iff_index_eq [of "map fst (contextMap s)" i j] by blast
    then show False using ij by simp
  qed
  have 3: "\<forall>ob md gmo f now.
        (let s' = Get ob md gmo f now s; c = nextRef s
         in getUserContext (Some ob) s' = Some c \<and>
            cb (heap s' c) = f \<and> jsgmo (heap s' c) = Some gmo \<and> jsmd (heap s' c) = Some md \<and>
            WaitInterval (heap s' c) = GmoWaitInterval gmo \<and> object (heap s' c) = ob \<and>
            distinct (map fst (contextMap s')) \<and>
            (\<forall>old. getUserContext (Some ob) s = Some old \<longrightarrow>
               length (contextMap s') = length (contextMap s) \<and>
               old \<notin> snd ` set (contextMap s')) \<and>
            (getUserContext (Some ob) s = None \<longrightarrow>
               length (contextMap s') = Suc (length (contextMap s))) \<and>
            (\<forall>ob'. (hConn ob', hObj ob') \<noteq> (hConn ob, hObj ob) \<longrightarrow>
               getUserContext (Some ob') s' = getUserContext (Some ob') s))"
  proof (intro allI)
    fix ob :: MQObject and md :: MQMD and gmo :: MQGMO and f :: nat and now :: int
    let ?key = "num_str (hConn ob) @ ''/'' @ num_str (hObj ob)"
    let ?s' = "Get ob md gmo f now s"
    let ?c = "nextRef s"
    note g = Get_registry [of ob md gmo f now s]
    have cm: "contextMap ?s' = AList.update ?key ?c (contextMap s)" using g by simp
    have hp: "heap ?s' ?c = (UserContext_new ob f now)\<lparr> jsgmo := Some gmo, jsmd := Some md,
        WaitInterval := GmoWaitInterval gmo \<rparr>" using g by simp
    have k: "getKey (Some ob) = Some ?key" by (simp add: getKey_def)
    have a: "getUserContext (Some ob) ?s' = Some ?c"
      by (simp add: getUserContext_def k cm update_conv')
    have b: "cb (heap ?s' ?c) = f \<and> jsgmo (heap ?s' ?c) = Some gmo \<and>
        jsmd (heap ?s' ?c) = Some md \<and> WaitInterval (heap ?s' ?c) = GmoWaitInterval gmo \<and>
        object (heap ?s' ?c) = ob"
      unfolding hp by (simp add: UserContext_new_def)
    have c: "distinct (map fst (contextMap ?s'))"
      unfolding cm using d by (rule distinct_update)
    have e: "length (contextMap ?s') = length (contextMap s) \<and>
             old \<notin> snd ` set (contextMap ?s')"
      if o: "getUserContext (Some ob) s = Some old" for old
    proof -
      have m: "map_of (contextMap s) ?key = Some old"
        using o by (simp add: getUserContext_def k)
      then have i: "(?key, old) \<in> set (contextMap s)" by (rule map_of_SomeD)
      then have "old < ?c" using wf_ctx [OF w i] by simp
      moreover have "?key \<in> fst ` set (contextMap s)"
        using i by (metis fst_conv image_eqI)
      ultimately show ?thesis
        unfolding cm using update_drops_old [OF d2 m, of ?c] by (simp add: length_alist_update)
    qed
    have n: "length (contextMap ?s') = Suc (length (contextMap s))"
      if o: "getUserContext (Some ob) s = None"
    proof -
      have "map_of (contextMap s) ?key = None"
        using o by (simp add: getUserContext_def k)
      then have "?key \<notin> fst ` set (contextMap s)" by (simp add: map_of_eq_None_iff)
      then show ?thesis unfolding cm by (simp add: length_alist_update)
    qed
    have x: "getUserContext (Some ob') ?s' = getUserContext (Some ob') s"
      if o: "(hConn ob', hObj ob') \<noteq> (hConn ob, hObj ob)" for ob' :: MQObject
    proof -
      obtain key' where k': "getKey (Some ob') = Some key'" by (simp add: getKey_def)
      have "getKey (Some ob') \<noteq> getKey (Some ob)" using o by (simp add: getKey_inj)
      then have "key' \<noteq> ?key" using k k' by simp
      then show ?thesis
        by (simp add: getUserContext_def k' cm update_conv')
    qed
    show "let s' = Get ob md gmo f now s; c = nextRef s
         in getUserContext (Some ob) s' = Some c \<and>
            cb (heap s' c) = f \<and> jsgmo (heap s' c) = Some gmo \<and> jsmd (heap s' c) = Some md \<and>
            WaitInterval (heap s' c) = GmoWaitInterval gmo \<and> object (heap s' c) = ob \<and>
            distinct (map fst (contextMap s')) \<and>
            (\<forall>old. getUserContext (Some ob) s = Some old \<longrightarrow>
               length (contextMap s') = length (contextMap s) \<and>
               old \<notin> snd ` set (contextMap s')) \<and>
            (getUserContext (Some ob) s = None \<longrightarrow>
               length (contextMap s') = Suc (length (contextMap s))) \<and>
            (\<forall>ob'. (hConn ob', hObj ob') \<noteq> (hConn ob, hObj ob) \<longrightarrow>
               getUserContext (Some ob') s' = getUserContext (Some ob') s)"
      unfolding Let_def using a b c e n x by blast
  qed
  show ?thesis using d 2 3 by (intro conjI)
qed

lemma reRegistered_eval:
  "contextMap reRegistered = [(''1/1'', 1)] \<and> cb (heap reRegistered 1) = 9 \<and>
   jsgmo (heap reRegistered 1) = Some (gmoWait 500) \<and> contextMap polling1 = [(''1/1'', 0)] \<and>
   cb (heap polling1 0) = 7 \<and> nextRef polling1 = 1"
  by code_simp

lemma registry_replacement_example:
  "reachable ibmDefs polling1 \<and> getUserContext (Some (queue 1 1)) polling1 = Some 0 \<and>
   cb (heap polling1 0) = 7 \<and>
   getUserContext (Some (queue 1 1)) (Get (queue 1 1) md0 (gmoWait 500) 9 2 polling1) = Some 1 \<and>
   cb (heap (Get (queue 1 1) md0 (gmoWait 500) 9 2 polling1) 1) = 9 \<and>
   length (contextMap (Get (queue 1 1) md0 (gmoWait 500) 9 2 polling1)) = 1 \<and>
   0 \<notin> snd ` set (contextMap (Get (queue 1 1) md0 (gmoWait 500) 9 2 polling1))"
proof -
  have r: "reachable ibmDefs polling1"
    unfolding polling1_def by (rule reachable_run) (rule reach_init)
  note th = registry_one_context_per_key [OF r, THEN conjunct2, THEN conjunct2, rule_format,
      of "queue 1 1" md0 "gmoWait 500" 9 2]
  show ?thesis
    using th r polling1_registry reRegistered_eval polling1_eval
    by (simp add: Let_def)
qed

text \<open>
  C7, at an input where the code departs from it. The registry never holds two contexts
  for one pair of handles, and a second \<^verbatim>\<open>Get\<close> for a registered queue puts the new
  context in the place of the old one, as shown above; but the old handler and options are
  not discarded. In \<open>reRegistered\<close> a queue registered with handler 7 and a wait interval
  of 2000 ms is registered again, at time 2, with handler 9 and a wait interval of 500 ms,
  while the MQGET of the first registration is in flight; the registry then holds the new
  context only. The closure of that MQGET holds the old context and never looks at the
  registry. If the MQGET finds a message, handler 7 gets it and the same closure is
  scheduled again. If it finds none at time 1000, when the 500 ms of the new request are
  long over, nobody is told: measured by the old 2000 ms the wait has not expired, and the
  closure of the old context is scheduled again. If it finds none at time 2500, handler 7
  gets the error, and the entry that is then removed from the registry, under the key of the
  old context's object, is the new registration, whose handler 9 has not been called.
\<close>

theorem replaced_handler_still_served:
  "contextMap reRegistered = [(''1/1'', 1)] \<and> cb (heap reRegistered 1) = 9 \<and>
   jsgmo (heap reRegistered 1) = Some (gmoWait 500) \<and>
   inflight reRegistered = [MQGET call1] \<and> cl_c (call_cl call1) = 0 \<and>
   cb (heap reRegistered 0) = 7 \<and>
   calls servedOld =
     [GetCb 7 None (queue 1 1) (Some ((gmoWait 0)\<lparr> Options := 0 \<rparr>)) (Some md0) (Some 10)] \<and>
   timers servedOld = [(1, Timeout (Num 0), PollAllHConns),
     (2, Timeout (Num 0), PollHObjInternal \<lparr> cl_c = 0, cl_jsmd = md0,
        cl_jsgmo = (gmoWait 0)\<lparr> Options := 0 \<rparr> \<rparr>)] \<and>
   calls waitingOld = [] \<and> contextMap waitingOld = [(''1/1'', 1)] \<and>
   timers waitingOld = [(1, Timeout (Num 0), PollAllHConns),
     (2, Timeout (Num 10000), PollHObjInternal \<lparr> cl_c = 0, cl_jsmd = md0,
        cl_jsgmo = (gmoWait 0)\<lparr> Options := 0 \<rparr> \<rparr>)] \<and>
   calls expiredOld =
     [GetCb 7 (Some (MQError 2 2033 ''GET'')) (queue 1 1) None None None] \<and>
   contextMap expiredOld = []"
  by code_simp

lemma reRegistered_reachable: "reachable ibmDefs reRegistered"
  unfolding reRegistered_def polling1_def
  by (rule reach_step) (rule reachable_run, rule reach_init)

subsection \<open>Expiry of the wait interval\<close>

lemma callback_terminal:
  assumes "out_cc out \<noteq> MQCC_OK E" and "out_rc out \<noteq> MQRC_TRUNCATED_MSG_FAILED E"
    and "out_rc out = MQRC_NO_MSG_AVAILABLE E \<longrightarrow>
           waitExpired E (heap s (cl_c (call_cl call))) now"
  shows "MQGET_callback E rnd now ed call out s =
     (let a = cl_c (call_cl call); c = heap s a; hc = hConn (object c)
      in pollHobjs E rnd now hc
           (deleteUserContext (object c)
              (invoke (GetCb (cb c) (Some (MQError (out_cc out) (out_rc out) ''GET''))
                         (object c) None None None)
                 (updCtx a (\<lambda>c. c\<lparr> state := Waiting \<rparr>) (unlock hc s)))))"
  using assms by (auto simp add: MQGET_callback_def Let_def unlock_def)

text \<open>
  What the callback does with \<open>MQRC_NO_MSG_AVAILABLE\<close>: with a wait interval that is not
  unlimited and has passed, the handler is called once with the error and the key of the
  context's object leaves the registry; with an unlimited or unexpired interval no handler
  is called and the registry is unchanged.
\<close>

lemma no_message_timeout:
  assumes "out_cc out \<noteq> MQCC_OK E" and "out_rc out = MQRC_NO_MSG_AVAILABLE E"
    and "MQRC_NO_MSG_AVAILABLE E \<noteq> MQRC_TRUNCATED_MSG_FAILED E"
  shows "let a = cl_c (call_cl call); c = heap s a;
             s' = MQGET_callback E rnd now ed call out s
         in (WaitInterval c \<noteq> MQWI_UNLIMITED E \<and> WaitInterval c \<le> now - WaitStartTime c \<longrightarrow>
               calls s' = calls s @ [GetCb (cb c) (Some (MQError (out_cc out) (out_rc out) ''GET''))
                                       (object c) None None None] \<and>
               getUserContext (Some (object c)) s' = None) \<and>
            (WaitInterval c = MQWI_UNLIMITED E \<or> now - WaitStartTime c < WaitInterval c \<longrightarrow>
               calls s' = calls s \<and> contextMap s' = contextMap s)"
proof -
  let ?a = "cl_c (call_cl call)"
  let ?c = "heap s ?a"
  have t: "out_rc out \<noteq> MQRC_TRUNCATED_MSG_FAILED E" using assms(2,3) by simp
  have 1: "calls (MQGET_callback E rnd now ed call out s) =
             calls s @ [GetCb (cb ?c) (Some (MQError (out_cc out) (out_rc out) ''GET''))
                                       (object ?c) None None None] \<and>
           getUserContext (Some (object ?c)) (MQGET_callback E rnd now ed call out s) = None"
    if "WaitInterval ?c \<noteq> MQWI_UNLIMITED E \<and> WaitInterval ?c \<le> now - WaitStartTime ?c"
  proof -
    have w: "waitExpired E ?c now" using that by (simp add: waitExpired_iff)
    obtain key where k: "getKey (Some (object ?c)) = Some key" by (simp add: getKey_def)
    have i: "out_rc out = MQRC_NO_MSG_AVAILABLE E \<longrightarrow> waitExpired E ?c now"
      using w by simp
    show ?thesis
      unfolding callback_terminal [OF assms(1) t i] Let_def
      using k
      by (simp add: pollHobjs_frame getUserContext_def deleteUserContext_def invoke_def
          updCtx_def unlock_def delete_conv')
  qed
  have 2: "calls (MQGET_callback E rnd now ed call out s) = calls s \<and>
           contextMap (MQGET_callback E rnd now ed call out s) = contextMap s"
    if "WaitInterval ?c = MQWI_UNLIMITED E \<or> now - WaitStartTime ?c < WaitInterval ?c"
  proof -
    have w: "\<not> waitExpired E ?c now" using that by (simp add: waitExpired_iff)
    show ?thesis
      unfolding callback_no_message [OF assms w] Let_def
      by (simp add: pollHobjs_frame setTimeout_def unlock_def)
  qed
  show ?thesis unfolding Let_def using 1 2 by blast
qed

subsection \<open>Stopping and restarting the loop\<close>

lemma resetGetLoop_idem: "resetGetLoop (resetGetLoop s) = resetGetLoop s"
  by (simp add: resetGetLoop_def)

lemma resetGetLoop_keeps:
  "timers (resetGetLoop s) = timers s \<and> inflight (resetGetLoop s) = inflight s \<and>
   contextMap (resetGetLoop s) = contextMap s"
  by (simp add: resetGetLoop_def)

lemma pollAllHConns_empty: "contextMap s = [] \<Longrightarrow> pollAllHConns E rnd now s = resetGetLoop s"
  by (simp add: pollAllHConns_def Let_def)

lemma Get_starts_loop:
  assumes "\<not> scheduledGetLoop s \<or> getLoop s = None"
  shows "timers (Get ob md gmo f now s) = timers s @ [(nextTimer s, Timeout (Num 0), PollAllHConns)] \<and>
         getLoop (Get ob md gmo f now s) = Some (nextTimer s) \<and>
         scheduledGetLoop (Get ob md gmo f now s)"
  using assms
  by (auto simp add: Get_def setUserContext_def getKey_def Let_def updCtx_def setTimeout_def
      split_def)

lemma quiescent:
  assumes "timers s = []" and "inflight s = []"
  shows "step E rnd now (Fire i) s = s \<and> step E rnd now (Complete i out ed) s = s \<and>
         step E rnd now (VerbDone i) s = s"
  using assms by (simp add: step_def)

lemma idleAfterTimeout_eval:
  "contextMap idleAfterTimeout = [] \<and> timers idleAfterTimeout = [] \<and>
   inflight idleAfterTimeout = [] \<and> hConnsInPoll idleAfterTimeout = [] \<and>
   scheduledGetLoop idleAfterTimeout \<and> getLoop idleAfterTimeout = Some 0 \<and>
   calls idleAfterTimeout =
     [GetCb 7 (Some (MQError 2 2033 ''GET'')) (queue 1 1) None None None]"
  by code_simp

text \<open>
  C8, at an input where the code departs from it. The last context is removed by the expiry
  of its wait interval. Afterwards the registry is empty and, once the pass scheduled by
  \<open>pollHobjs\<close> has run, no timer is pending and no call is in flight; but
  \<open>scheduledGetLoop\<close> is still true and \<open>getLoop\<close> still holds the handle of the first
  timer, since only \<^verbatim>\<open>GetDone\<close> and \<open>pollAllHConns\<close> reset them. A new \<^verbatim>\<open>Get\<close>
  therefore registers its context and schedules nothing: the loop is not started again.
\<close>

theorem loop_not_rearmed_after_timeout:
  "contextMap idleAfterTimeout = [] \<and> timers idleAfterTimeout = [] \<and>
   inflight idleAfterTimeout = [] \<and>
   calls idleAfterTimeout =
     [GetCb 7 (Some (MQError 2 2033 ''GET'')) (queue 1 1) None None None] \<and>
   scheduledGetLoop idleAfterTimeout \<and> getLoop idleAfterTimeout = Some 0 \<and>
   contextMap stalled = [(''1/2'', 1)] \<and> timers stalled = [] \<and> inflight stalled = [] \<and>
   scheduledGetLoop stalled \<and> getLoop stalled = Some 0"
  by code_simp

text \<open>
  C2, at an input where the code departs from it. The context registered last in
  \<open>stalled\<close> has a wait interval of 2000 ms and no message ever arrives for it, yet
  no timer is pending and no call is in flight, so that no tick of the scheduler changes
  anything any more: its handler (8) is never called, neither with a message nor with the
  expiry of the wait. The only call made to a handler is the expiry for the first context.
\<close>

theorem no_timeout_for_stalled_registration:
  "contextMap stalled = [(''1/2'', 1)] \<and> cb (heap stalled 1) = 8 \<and>
   WaitInterval (heap stalled 1) = 2000 \<and> WaitStartTime (heap stalled 1) = 30000 \<and>
   timers stalled = [] \<and> inflight stalled = [] \<and>
   calls stalled = [GetCb 7 (Some (MQError 2 2033 ''GET'')) (queue 1 1) None None None] \<and>
   (\<forall>rnd now i out ed.
      step ibmDefs rnd now (Fire i) stalled = stalled \<and>
      step ibmDefs rnd now (Complete i out ed) stalled = stalled \<and>
      step ibmDefs rnd now (VerbDone i) stalled = stalled)"
proof -
  have e: "contextMap stalled = [(''1/2'', 1)] \<and> cb (heap stalled 1) = 8 \<and>
   WaitInterval (heap stalled 1) = 2000 \<and> WaitStartTime (heap stalled 1) = 30000 \<and>
   timers stalled = [] \<and> inflight stalled = [] \<and>
   calls stalled = [GetCb 7 (Some (MQError 2 2033 ''GET'')) (queue 1 1) None None None]"
    by code_simp
  then have "timers stalled = []" "inflight stalled = []" by simp_all
  then have "\<forall>rnd now i out ed.
      step ibmDefs rnd now (Fire i) stalled = stalled \<and>
      step ibmDefs rnd now (Complete i out ed) stalled = stalled \<and>
      step ibmDefs rnd now (VerbDone i) stalled = stalled"
    using quiescent by blast
  then show ?thesis using e by blast
qed

subsection \<open>Connection teardown\<close>

text \<open>
  \<open>deleteUserConnection\<close>, which \<^verbatim>\<open>Disc\<close> calls when the connection is gone, only
  removes entries of the registry: distinct keys stay distinct. It does not touch the loop
  variables.
\<close>

lemma deleteUserConnection_keys:
  "distinct (map fst (contextMap s)) \<Longrightarrow>
   distinct (map fst (contextMap (deleteUserConnection hc s)))"
  by (simp add: deleteUserConnection_def Let_def distinct_map_filter)

lemma deleteUserConnection_loop:
  "getLoop (deleteUserConnection hc s) = getLoop s \<and>
   scheduledGetLoop (deleteUserConnection hc s) = scheduledGetLoop s \<and>
   timers (deleteUserConnection hc s) = timers s"
  by (simp add: deleteUserConnection_def Let_def)

end
